theory Spec2Isabelle
  imports Main
begin

section \<open>Python strings: \<open>str.strip\<close>, \<open>int\<close> and \<open>str\<close>\<close>

text \<open>
  The program is \<^verbatim>\<open>logic.py\<close>: a \<^verbatim>\<open>FileManager\<close> that keeps a vote log in a CSV
  file, and the handlers of \<^verbatim>\<open>ProjectWindow\<close> that validate a ballot, look for the
  voter in the log and append the vote.

  Strings are modelled as lists of 8-bit characters, read as the code points below
  256: the white space and the decimal digits that Unicode has beyond them, and that
  Python also accepts, are outside the model.

  \<open>isspace\<close> is \<^verbatim>\<open>str.isspace\<close> on these code points, the characters that
  \<^verbatim>\<open>str.strip()\<close> removes: tab, line feed, vertical tab, form feed, carriage return,
  the four separators 0x1C .. 0x1F, the space, the next-line control 0x85 and the
  no-break space 0xA0.
\<close>

definition isspace :: "char \<Rightarrow> bool" where
  "isspace c = (c \<in> set [CHR 0x09, CHR 0x0A, CHR 0x0B, CHR 0x0C, CHR 0x0D,
                           CHR 0x1C, CHR 0x1D, CHR 0x1E, CHR 0x1F, CHR 0x20,
                           CHR 0x85, CHR 0xA0])"

definition strip :: "string \<Rightarrow> string" where
  "strip s = rev (dropWhile isspace (rev (dropWhile isspace s)))"

definition digit_chars :: string where
  "digit_chars = ''0123456789''"

definition isdigit :: "char \<Rightarrow> bool" where
  "isdigit c = (c \<in> set digit_chars)"

text \<open>The value of a digit is its position in \<open>digit_chars\<close>.\<close>

definition digit_val :: "char \<Rightarrow> nat" where
  "digit_val c = length (takeWhile (\<lambda>d. d \<noteq> c) digit_chars)"

text \<open>
  \<^verbatim>\<open>int(s)\<close> in base 10, after CPython's \<^verbatim>\<open>long_from_string_base\<close>: the text between
  the white space is an optional sign followed by digits, where single underscores may
  stand between two digits (no leading, trailing or doubled underscore). \<open>scan\<close> is the
  validating loop with its \<^verbatim>\<open>prev\<close> variable. A text with more digits than
  \<open>int_max_str_digits\<close> (4300, the interpreter's default limit) raises \<^verbatim>\<open>ValueError\<close>
  like a malformed one. \<open>None\<close> stands for the \<^verbatim>\<open>ValueError\<close>.

  The white space that \<^verbatim>\<open>int()\<close> skips at both ends is not that of \<^verbatim>\<open>str.strip()\<close>:
  below 127 it is C's (tab to carriage return, and the space), so a text that starts
  with one of 0x1C .. 0x1F is refused; above, the Unicode white space is turned into
  spaces first, so 0x85 and 0xA0 are skipped.
\<close>

definition int_isspace :: "char \<Rightarrow> bool" where
  "int_isspace c = (c \<in> set [CHR 0x09, CHR 0x0A, CHR 0x0B, CHR 0x0C, CHR 0x0D, CHR 0x20,
                               CHR 0x85, CHR 0xA0])"

definition int_trim :: "string \<Rightarrow> string" where
  "int_trim s = rev (dropWhile int_isspace (rev (dropWhile int_isspace s)))"

fun scan :: "char \<Rightarrow> string \<Rightarrow> bool" where
  "scan prev [] = (prev \<noteq> CHR ''_'')"
| "scan prev (c # cs) =
     (if c = CHR ''_'' then prev \<noteq> CHR ''_'' \<and> scan c cs else isdigit c \<and> scan c cs)"

definition valid_digits :: "string \<Rightarrow> bool" where
  "valid_digits s = (s \<noteq> [] \<and> hd s \<noteq> CHR ''_'' \<and> scan (CHR 0x00) s)"

definition int_max_str_digits :: nat where
  "int_max_str_digits = 4300"

definition digits_value :: "string \<Rightarrow> nat" where
  "digits_value s = foldl (\<lambda>a c. 10 * a + digit_val c) 0 (filter isdigit s)"

definition py_int :: "string \<Rightarrow> int option" where
  "py_int s =
     (let t = int_trim s;
          neg = (t \<noteq> [] \<and> hd t = CHR ''-'');
          body = (if t \<noteq> [] \<and> (hd t = CHR ''-'' \<or> hd t = CHR ''+'') then tl t else t)
      in if valid_digits body \<and> length (filter isdigit body) \<le> int_max_str_digits
         then Some (if neg then - int (digits_value body) else int (digits_value body))
         else None)"

text \<open>\<^verbatim>\<open>str(n)\<close> of a non-negative integer: its decimal digits.\<close>

fun str_nat :: "nat \<Rightarrow> string" where
  "str_nat n =
     (if n < 10 then [digit_chars ! n] else str_nat (n div 10) @ [digit_chars ! (n mod 10)])"

section \<open>The file system and the CSV files\<close>

text \<open>
  A CSV file is the list of its rows, a row the list of its fields: the quoting that
  \<^verbatim>\<open>csv.writer\<close> applies and \<^verbatim>\<open>csv.reader\<close> undoes is not modelled, and every row in a
  file is complete. The file of zero bytes is \<open>[]\<close>; a blank line is the row \<open>[]\<close>.

  Several paths can name one file, as \<^verbatim>\<open>data.csv\<close>, \<^verbatim>\<open>./data.csv\<close>, its absolute path and
  a symbolic link to it do: \<open>resolve p\<close> is the canonical name of the file that the
  path \<open>p\<close> names, equal for two paths exactly when they name the same file, and
  \<open>disk\<close> maps the canonical names to the files that exist. \<open>files fs p\<close> is the file
  that a program finds under the path \<open>p\<close>. No operation of the program changes what
  a path names. Two directory entries of one file (hard links) are not modelled, and a
  path that is removed is taken not to be a symbolic link itself.

  Which operations the operating system refuses is part of the state: \<open>can_read p\<close>,
  \<open>can_write p\<close> (opening \<open>p\<close> for writing or appending, creating it when absent) and
  \<open>can_remove p\<close>. A refused operation raises \<^verbatim>\<open>IOError\<close> and changes nothing.
\<close>

type_synonym csv_row = "string list"

type_synonym csv_file = "csv_row list"

record filesystem =
  disk :: "string \<rightharpoonup> csv_file"
  resolve :: "string \<Rightarrow> string"
  can_read :: "string \<Rightarrow> bool"
  can_write :: "string \<Rightarrow> bool"
  can_remove :: "string \<Rightarrow> bool"

definition files :: "filesystem \<Rightarrow> string \<rightharpoonup> csv_file" where
  "files fs p = disk fs (resolve fs p)"

definition path_exists :: "filesystem \<Rightarrow> string \<Rightarrow> bool" where
  "path_exists fs p = (files fs p \<noteq> None)"

text \<open>\<^verbatim>\<open>open(p, mode='r')\<close>: the rows of the file, \<open>None\<close> for \<^verbatim>\<open>IOError\<close>.\<close>

definition open_read :: "filesystem \<Rightarrow> string \<Rightarrow> csv_file option" where
  "open_read fs p = (if can_read fs p then files fs p else None)"

text \<open>
  \<^verbatim>\<open>open(p, mode='a')\<close>: the rows already in the file (none when it is created),
  \<open>None\<close> for \<^verbatim>\<open>IOError\<close>.
\<close>

definition open_append :: "filesystem \<Rightarrow> string \<Rightarrow> csv_file option" where
  "open_append fs p =
     (if can_write fs p then Some (case files fs p of None \<Rightarrow> [] | Some rows \<Rightarrow> rows)
      else None)"

definition store :: "filesystem \<Rightarrow> string \<Rightarrow> csv_file \<Rightarrow> filesystem" where
  "store fs p rows = fs\<lparr>disk := (disk fs)(resolve fs p \<mapsto> rows)\<rparr>"

text \<open>\<^verbatim>\<open>os.remove(p)\<close>: \<open>None\<close> when it raises (no such file, or refused).\<close>

definition os_remove :: "filesystem \<Rightarrow> string \<Rightarrow> filesystem option" where
  "os_remove fs p =
     (if path_exists fs p \<and> can_remove fs p
      then Some (fs\<lparr>disk := (disk fs)(resolve fs p := None)\<rparr>)
      else None)"

text \<open>
  \<^verbatim>\<open>csv.DictReader\<close>: the first row of the file gives the field names (\<open>None\<close> for the
  file of zero bytes); every later row that is not blank becomes a dictionary from the
  field names to its fields, a field name beyond the end of a short row mapped to
  Python's \<^verbatim>\<open>None\<close>, a repeated field name to its last field. The fields of a long row
  beyond the field names go under the key \<^verbatim>\<open>None\<close>, which no lookup of the program
  reads.
\<close>

datatype pyval = PyStr string | PyNone

definition fieldnames :: "csv_file \<Rightarrow> csv_row option" where
  "fieldnames rows = (case rows of [] \<Rightarrow> None | h # _ \<Rightarrow> Some h)"

definition row_dict :: "csv_row \<Rightarrow> csv_row \<Rightarrow> (string \<rightharpoonup> pyval)" where
  "row_dict h r =
     map_of (rev (zip h (map PyStr r @ replicate (length h - length r) PyNone)))"

definition dict_rows :: "csv_file \<Rightarrow> (string \<rightharpoonup> pyval) list" where
  "dict_rows rows =
     (case rows of [] \<Rightarrow> [] | h # rs \<Rightarrow> map (row_dict h) (filter (\<lambda>r. r \<noteq> []) rs))"

section \<open>FileManager\<close>

definition header :: csv_row where
  "header = [''VoterID'', ''Vote'', ''Total'']"

text \<open>\<^verbatim>\<open>_ensure_file_exists\<close>: a failed creation is printed and otherwise ignored.\<close>

definition ensure_file_exists :: "filesystem \<Rightarrow> string \<Rightarrow> filesystem" where
  "ensure_file_exists fs fn =
     (if \<not> path_exists fs fn
      then (if can_write fs fn then store fs fn [header] else fs)
      else fs)"

text \<open>
  \<^verbatim>\<open>log_vote\<close>: counts the rows that have a \<^verbatim>\<open>VoterID\<close> key, appends the header when
  the file is empty and then the row of the vote. It returns nothing; an \<^verbatim>\<open>IOError\<close>
  is printed to the console and the file system is left as it was.
\<close>

definition has_voted :: "csv_file \<Rightarrow> string \<Rightarrow> bool" where
  "has_voted rows voter_id =
     list_ex (\<lambda>row. row ''VoterID'' = Some (PyStr voter_id)) (dict_rows rows)"

definition count_votes :: "csv_file \<Rightarrow> nat" where
  "count_votes rows = length (filter (\<lambda>d. d ''VoterID'' \<noteq> None) (dict_rows rows))"

definition log_vote :: "filesystem \<Rightarrow> string \<Rightarrow> string \<Rightarrow> string \<Rightarrow> filesystem" where
  "log_vote fs fn voter_id name =
     (case (if path_exists fs fn then map_option count_votes (open_read fs fn) else Some 0) of
        None \<Rightarrow> fs
      | Some n \<Rightarrow>
          (let total_votes = n + 1 in
           case open_append fs fn of
             None \<Rightarrow> fs
           | Some rows \<Rightarrow>
               store fs fn
                 (rows @ (if rows = [] then [header] else [])
                       @ [[voter_id, name, str_nat total_votes]])))"

text \<open>
  \<^verbatim>\<open>read_results\<close>. The dictionary it returns is keyed by what \<^verbatim>\<open>row["Vote"]\<close> can be:
  a string or \<^verbatim>\<open>None\<close>. \<^verbatim>\<open>int(...)\<close> of a summary row raises \<^verbatim>\<open>TypeError\<close> on \<^verbatim>\<open>None\<close>
  and \<^verbatim>\<open>ValueError\<close> on a malformed number, and nothing catches them. On \<^verbatim>\<open>IOError\<close>
  the dictionary is returned as initialised, without its \<^verbatim>\<open>Total\<close>.
\<close>

datatype exn = TypeError | ValueError

type_synonym results = "pyval \<rightharpoonup> int"

definition int_of_pyval :: "pyval \<Rightarrow> exn + int" where
  "int_of_pyval v =
     (case v of PyNone \<Rightarrow> Inl TypeError
      | PyStr s \<Rightarrow> (case py_int s of None \<Rightarrow> Inl ValueError | Some i \<Rightarrow> Inr i))"

definition initial_results :: results where
  "initial_results = [PyStr ''Jane'' \<mapsto> 0, PyStr ''John'' \<mapsto> 0]"

definition tally_row :: "(string \<rightharpoonup> pyval) \<Rightarrow> results \<times> int \<Rightarrow> exn + results \<times> int" where
  "tally_row row acc =
     (case acc of (res, total_votes) \<Rightarrow>
        if row ''Jane'' \<noteq> None \<and> row ''John'' \<noteq> None \<and> row ''Total'' \<noteq> None
           \<and> row ''VoterID'' = None
        then (case int_of_pyval (the (row ''Jane'')) of
                Inl e \<Rightarrow> Inl e
              | Inr jane \<Rightarrow>
                  (case int_of_pyval (the (row ''John'')) of
                     Inl e \<Rightarrow> Inl e
                   | Inr john \<Rightarrow>
                       (case int_of_pyval (the (row ''Total'')) of
                          Inl e \<Rightarrow> Inl e
                        | Inr t \<Rightarrow>
                            Inr (res(PyStr ''Jane'' \<mapsto> jane, PyStr ''John'' \<mapsto> john), t))))
        else (case row ''Vote'' of
                Some vote \<Rightarrow>
                  Inr (res(vote \<mapsto> (case res vote of None \<Rightarrow> 0 | Some n \<Rightarrow> n) + 1),
                       total_votes + 1)
              | None \<Rightarrow> Inr (res, total_votes)))"

fun tally_rows :: "(string \<rightharpoonup> pyval) list \<Rightarrow> results \<times> int \<Rightarrow> exn + results \<times> int" where
  "tally_rows [] acc = Inr acc"
| "tally_rows (row # rows) acc =
     (case tally_row row acc of Inl e \<Rightarrow> Inl e | Inr acc' \<Rightarrow> tally_rows rows acc')"

definition read_results :: "filesystem \<Rightarrow> string \<Rightarrow> exn + results" where
  "read_results fs fn =
     (case open_read fs fn of
        None \<Rightarrow> Inr initial_results
      | Some rows \<Rightarrow>
          (case tally_rows (dict_rows rows) (initial_results, 0) of
             Inl e \<Rightarrow> Inl e
           | Inr (res, total_votes) \<Rightarrow> Inr (res(PyStr ''Total'' \<mapsto> total_votes))))"

text \<open>
  \<^verbatim>\<open>reset_counts\<close> removes the fixed path \<^verbatim>\<open>'data.csv'\<close>, ignores (prints) any exception
  of the removal, and then makes sure that the manager's own file exists.
\<close>

definition reset_counts :: "filesystem \<Rightarrow> string \<Rightarrow> filesystem" where
  "reset_counts fs fn =
     ensure_file_exists
       (case os_remove fs ''data.csv'' of None \<Rightarrow> fs | Some fs' \<Rightarrow> fs') fn"

section \<open>ProjectWindow\<close>

text \<open>
  What a handler shows to the user: the error dialogs of \<^verbatim>\<open>show_error_message\<close> and the
  texts of the label. An exception that no handler catches is an \<open>exn\<close>.
\<close>

datatype message =
    VoterIdRequired
  | VoterIdNotNumber
  | MissingVoterIdColumn
  | AlreadyVoted
  | ErrorReadingFile
  | NameIsNumber
  | EmptyName
  | NoOptionSelected
  | Thanks string
  | VotesReset

datatype radio = JaneRadio | JohnRadio | OtherRadio | NoRadio

definition data_csv :: string where
  "data_csv = ''data.csv''"

definition validate_input :: "string \<Rightarrow> bool" where
  "validate_input input_text = (strip input_text \<noteq> [])"

text \<open>
  \<^verbatim>\<open>on_button_click\<close>, with the contents of the voter-id field, the checked radio button
  and the contents of the write-in field as arguments. \<open>fn\<close> is the file name of the
  window's \<^verbatim>\<open>FileManager\<close> (\<open>data_csv\<close> in the program). \<open>cast_choice\<close> is the second
  half of the handler, the chain over the radio buttons that follows the scan for the
  voter; a numeric write-in name is refused there with an error dialog, an empty one too.
  The file of zero bytes has no field names, and \<^verbatim>\<open>"VoterID" not in None\<close> raises a
  \<^verbatim>\<open>TypeError\<close> that nothing catches.
\<close>

definition cast_choice ::
  "filesystem \<Rightarrow> string \<Rightarrow> string \<Rightarrow> radio \<Rightarrow> string \<Rightarrow> (exn + message) \<times> filesystem" where
  "cast_choice fs fn voter_id button line_edit =
     (case button of
        JaneRadio \<Rightarrow> (Inr (Thanks ''Jane''), log_vote fs fn voter_id ''Jane'')
      | JohnRadio \<Rightarrow> (Inr (Thanks ''John''), log_vote fs fn voter_id ''John'')
      | OtherRadio \<Rightarrow>
          (let user_input = strip line_edit in
           if validate_input user_input
           then (if py_int user_input \<noteq> None then (Inr NameIsNumber, fs)
                 else (Inr (Thanks user_input), log_vote fs fn voter_id user_input))
           else (Inr EmptyName, fs))
      | NoRadio \<Rightarrow> (Inr NoOptionSelected, fs))"

definition on_button_click ::
  "filesystem \<Rightarrow> string \<Rightarrow> string \<Rightarrow> radio \<Rightarrow> string \<Rightarrow> (exn + message) \<times> filesystem" where
  "on_button_click fs fn id_input button line_edit =
     (let voter_id = strip id_input in
      if \<not> validate_input voter_id then (Inr VoterIdRequired, fs)
      else if py_int voter_id = None then (Inr VoterIdNotNumber, fs)
      else
        (case open_read fs fn of
           None \<Rightarrow> (Inr ErrorReadingFile, fs)
         | Some rows \<Rightarrow>
             (case fieldnames rows of
                None \<Rightarrow> (Inl TypeError, fs)
              | Some headers \<Rightarrow>
                  if ''VoterID'' \<notin> set headers then (Inr MissingVoterIdColumn, fs)
                  else if has_voted rows voter_id
                  then (Inr AlreadyVoted, fs)
                  else cast_choice fs fn voter_id button line_edit)))"

text \<open>
  \<^verbatim>\<open>view_results\<close> takes \<^verbatim>\<open>Total\<close> out of the dictionary (0 when it is missing) and shows
  it above the remaining entries; \<^verbatim>\<open>reset_votes\<close> resets and reports success.
\<close>

definition view_results :: "filesystem \<Rightarrow> string \<Rightarrow> exn + int \<times> results" where
  "view_results fs fn =
     (case read_results fs fn of
        Inl e \<Rightarrow> Inl e
      | Inr data \<Rightarrow>
          Inr (case data (PyStr ''Total'') of None \<Rightarrow> 0 | Some t \<Rightarrow> t,
               data(PyStr ''Total'' := None)))"

definition reset_votes :: "filesystem \<Rightarrow> string \<Rightarrow> message \<times> filesystem" where
  "reset_votes fs fn = (VotesReset, reset_counts fs fn)"

section \<open>Vocabulary of the specification\<close>

text \<open>
  The specification's three error kinds, and the kind of what a handler shows: an
  input that is refused is an \<open>InvalidInputError\<close>, a voter found in the log a
  \<open>DuplicateVoterError\<close>, a log that cannot be read or lacks its column a
  \<open>StorageError\<close>. The two success messages have no error kind.
\<close>

datatype error_kind = InvalidInputError | DuplicateVoterError | StorageError

fun kind_of :: "message \<Rightarrow> error_kind option" where
  "kind_of VoterIdRequired = Some InvalidInputError"
| "kind_of VoterIdNotNumber = Some InvalidInputError"
| "kind_of NameIsNumber = Some InvalidInputError"
| "kind_of EmptyName = Some InvalidInputError"
| "kind_of NoOptionSelected = Some InvalidInputError"
| "kind_of AlreadyVoted = Some DuplicateVoterError"
| "kind_of ErrorReadingFile = Some StorageError"
| "kind_of MissingVoterIdColumn = Some StorageError"
| "kind_of (Thanks name) = None"
| "kind_of VotesReset = None"

text \<open>
  A vote log as the program writes it: the header row followed by records of three
  fields (voter id, vote, sequence number). A store is in order when its file is absent
  or such a log.
\<close>

definition log_file :: "csv_file \<Rightarrow> bool" where
  "log_file rows = (rows \<noteq> [] \<and> hd rows = header \<and> list_all (\<lambda>r. length r = 3) (tl rows))"

definition log_store :: "filesystem \<Rightarrow> string \<Rightarrow> bool" where
  "log_store fs fn = (case files fs fn of None \<Rightarrow> True | Some rows \<Rightarrow> log_file rows)"

text \<open>
  The records of a file are the rows that its \<^verbatim>\<open>DictReader\<close> yields: the rows after
  the first that are not blank.
\<close>

definition records :: "csv_file \<Rightarrow> csv_row list" where
  "records rows = filter (\<lambda>r. r \<noteq> []) (tl rows)"

text \<open>The store \<open>fn\<close> holds a record of voter \<open>v\<close>.\<close>

definition voted :: "filesystem \<Rightarrow> string \<Rightarrow> string \<Rightarrow> bool" where
  "voted fs fn v = (case files fs fn of None \<Rightarrow> False | Some rows \<Rightarrow> has_voted rows v)"

text \<open>The records that a reader of the store \<open>fn\<close> gets: none when it cannot be read.\<close>

definition stored_records :: "filesystem \<Rightarrow> string \<Rightarrow> csv_row list" where
  "stored_records fs fn = (case open_read fs fn of None \<Rightarrow> [] | Some rows \<Rightarrow> records rows)"

definition voter_of :: "csv_row \<Rightarrow> string" where
  "voter_of r = r ! 0"

definition vote_of :: "csv_row \<Rightarrow> string" where
  "vote_of r = r ! 1"

definition total_of :: "csv_row \<Rightarrow> string" where
  "total_of r = r ! 2"

definition votes_for :: "csv_row list \<Rightarrow> string \<Rightarrow> nat" where
  "votes_for recs name = length (filter (\<lambda>r. vote_of r = name) recs)"

text \<open>
  The tally that the specification expects of a list of records: the number of records
  under \<^verbatim>\<open>Total\<close>, the two default candidates with their numbers of votes, and every
  other name that has a vote with its number of votes.
\<close>

definition tally_of :: "csv_row list \<Rightarrow> results" where
  "tally_of recs k =
     (case k of
        PyNone \<Rightarrow> None
      | PyStr name \<Rightarrow>
          if name = ''Total'' then Some (int (length recs))
          else if name = ''Jane'' \<or> name = ''John'' \<or> 0 < votes_for recs name
          then Some (int (votes_for recs name))
          else None)"

text \<open>
  The window's operations on its store \<open>data_csv\<close>, and a run of them: a ballot
  (\<^verbatim>\<open>on_button_click\<close>), a look at the results (\<^verbatim>\<open>view_results\<close>, which changes nothing)
  and a reset (\<^verbatim>\<open>reset_votes\<close>). \<open>startup\<close> is what \<^verbatim>\<open>ProjectWindow.__init__\<close> does to
  the file system.
\<close>

datatype op = CastVote string radio string | ViewResults | ResetVotes

fun do_op :: "filesystem \<Rightarrow> op \<Rightarrow> filesystem" where
  "do_op fs (CastVote id_input button line_edit) =
     snd (on_button_click fs data_csv id_input button line_edit)"
| "do_op fs ViewResults = fs"
| "do_op fs ResetVotes = snd (reset_votes fs data_csv)"

definition run :: "filesystem \<Rightarrow> op list \<Rightarrow> filesystem" where
  "run fs ops = foldl do_op fs ops"

definition startup :: "filesystem \<Rightarrow> filesystem" where
  "startup fs = ensure_file_exists fs data_csv"

text \<open>
  A sequence of ballots, each with the voter-id field, the radio button and the write-in
  field: the messages they produce one after the other.
\<close>

fun cast_all ::
  "filesystem \<Rightarrow> (string \<times> radio \<times> string) list \<Rightarrow> (exn + message) list \<times> filesystem" where
  "cast_all fs [] = ([], fs)"
| "cast_all fs ((i, b, l) # cs) =
     (case on_button_click fs data_csv i b l of
        (m, fs') \<Rightarrow> (case cast_all fs' cs of (ms, fs'') \<Rightarrow> (m # ms, fs'')))"

definition succeeded :: "exn + message \<Rightarrow> bool" where
  "succeeded m = (case m of Inr (Thanks name) \<Rightarrow> True | _ \<Rightarrow> False)"

text \<open>A sequence of calls of \<^verbatim>\<open>log_vote\<close>, each with a voter id and a name.\<close>

fun log_all :: "filesystem \<Rightarrow> string \<Rightarrow> (string \<times> string) list \<Rightarrow> filesystem" where
  "log_all fs fn [] = fs"
| "log_all fs fn ((v, c) # vcs) = log_all (log_vote fs fn v c) fn vcs"

text \<open>
  The records that a sequence of votes is expected to leave in a log of \<open>n\<close> records:
  each vote with the next sequence number.
\<close>

fun numbered :: "nat \<Rightarrow> (string \<times> string) list \<Rightarrow> csv_row list" where
  "numbered n [] = []"
| "numbered n ((v, c) # vcs) = [v, c, str_nat (Suc n)] # numbered (Suc n) vcs"

text \<open>A ballot that the validation accepts: a numeric voter id and a usable choice.\<close>

definition valid_ballot :: "string \<times> radio \<times> string \<Rightarrow> bool" where
  "valid_ballot c =
     (case c of (i, b, l) \<Rightarrow>
        py_int (strip i) \<noteq> None \<and>
        (b = JaneRadio \<or> b = JohnRadio \<or>
         (b = OtherRadio \<and> strip l \<noteq> [] \<and> py_int (strip l) = None)))"

text \<open>
  Environments for concrete runs. In the first two every path names a file of its own:
  one refuses nothing, the other lets its files be read but neither written, created
  nor removed. In the third, which refuses nothing, a path that starts with
  \<^verbatim>\<open>./\<close> names the same file as the path without it.
\<close>

definition permissive :: "(string \<rightharpoonup> csv_file) \<Rightarrow> filesystem" where
  "permissive fl =
     \<lparr>disk = fl, resolve = (\<lambda>p. p),
      can_read = (\<lambda>p. True), can_write = (\<lambda>p. True), can_remove = (\<lambda>p. True)\<rparr>"

definition read_only :: "(string \<rightharpoonup> csv_file) \<Rightarrow> filesystem" where
  "read_only fl =
     \<lparr>disk = fl, resolve = (\<lambda>p. p),
      can_read = (\<lambda>p. True), can_write = (\<lambda>p. False), can_remove = (\<lambda>p. False)\<rparr>"



definition one_vote :: csv_file where
  "one_vote = [header, [''1'', ''Jane'', ''1'']]"

section \<open>Strings\<close>

text \<open>The equation of \<open>str_nat\<close> rewrites under its own right-hand side.\<close>

declare str_nat.simps [simp del]

lemma dropWhile_fix: "xs = [] \<or> \<not> P (hd xs) \<Longrightarrow> dropWhile P xs = xs"
  by (cases xs) auto

lemma last_dropWhile: "dropWhile P xs \<noteq> [] \<Longrightarrow> last (dropWhile P xs) = last xs"
  by (induction xs) (auto split: if_splits)

lemma strip_ends:
  "strip s = [] \<or> (\<not> isspace (hd (strip s)) \<and> \<not> isspace (last (strip s)))"
proof (cases "strip s = []")
  case True
  then show ?thesis by simp
next
  case False
  let ?t = "dropWhile isspace s"
  let ?u = "dropWhile isspace (rev ?t)"
  have s: "strip s = rev ?u" by (simp add: strip_def)
  with False have u: "?u \<noteq> []" by simp
  have t: "?t \<noteq> []"
  proof
    assume "?t = []"
    then have "?u = []" by (simp only: rev.simps dropWhile.simps)
    with u show False by simp
  qed
  have "last ?u = last (rev ?t)" using u by (rule last_dropWhile)
  also have "\<dots> = hd ?t" using t by (simp add: last_rev)
  finally have "hd (strip s) = hd ?t" using u s by (simp add: hd_rev)
  moreover have "\<not> isspace (hd ?t)" using t by (rule hd_dropWhile)
  moreover have "last (strip s) = hd ?u" using u s by (simp add: last_rev)
  moreover have "\<not> isspace (hd ?u)" using u by (rule hd_dropWhile)
  ultimately show ?thesis by simp
qed

lemma trim_fix:
  "s = [] \<or> (\<not> P (hd s) \<and> \<not> P (last s)) \<Longrightarrow> rev (dropWhile P (rev (dropWhile P s))) = s"
proof (cases "s = []")
  case True
  then show ?thesis by simp
next
  case False
  assume "s = [] \<or> (\<not> P (hd s) \<and> \<not> P (last s))"
  with False have h: "\<not> P (hd s)" and l: "\<not> P (last s)" by auto
  have 1: "dropWhile P s = s" using h by (simp add: dropWhile_fix)
  have "hd (rev s) = last s" using False by (simp add: hd_rev)
  then have 2: "dropWhile P (rev s) = rev s" using l by (simp add: dropWhile_fix)
  show ?thesis by (simp add: 1 2)
qed

lemma strip_fix: "s = [] \<or> (\<not> isspace (hd s) \<and> \<not> isspace (last s)) \<Longrightarrow> strip s = s"
  unfolding strip_def by (rule trim_fix)

lemma int_trim_fix:
  "s = [] \<or> (\<not> int_isspace (hd s) \<and> \<not> int_isspace (last s)) \<Longrightarrow> int_trim s = s"
  unfolding int_trim_def by (rule trim_fix)

lemma int_isspace_isspace: "int_isspace c \<Longrightarrow> isspace c"
  by (auto simp add: int_isspace_def isspace_def)

text \<open>On a text that \<^verbatim>\<open>str.strip()\<close> has trimmed, \<^verbatim>\<open>int()\<close> finds no white space to skip.\<close>

lemma int_trim_strip: "int_trim (strip s) = strip s"
  using strip_ends [of s] by (auto intro!: int_trim_fix dest: int_isspace_isspace)

lemma strip_idem: "strip (strip s) = strip s"
  using strip_ends [of s] by (rule strip_fix)

lemma py_int_nonempty: "py_int s \<noteq> None \<Longrightarrow> s \<noteq> []"
  by (auto simp: py_int_def int_trim_def Let_def valid_digits_def split: if_splits)

text \<open>
  A separator at the start of a text is removed by \<^verbatim>\<open>str.strip()\<close> and refused by
  \<^verbatim>\<open>int()\<close>.
\<close>

lemma int_refuses_separator:
  "strip [CHR 0x1C, CHR ''1''] = ''1'' \<and> py_int [CHR 0x1C, CHR ''1''] = None
   \<and> py_int (strip [CHR 0x1C, CHR ''1'']) = Some 1"
  by (simp add: strip_def isspace_def int_trim_def int_isspace_def py_int_def valid_digits_def
      isdigit_def digit_chars_def int_max_str_digits_def digits_value_def digit_val_def Let_def)

section \<open>Rows as dictionaries\<close>

lemma row_dict_keys: "(row_dict h r k \<noteq> None) = (k \<in> set h)"
proof -
  let ?vs = "map PyStr r @ replicate (length h - length r) PyNone"
  have "length h \<le> length ?vs" by simp
  then have "map fst (zip h ?vs) = h"
    by (simp add: map_fst_zip_take)
  then have "fst ` set (zip h ?vs) = set h"
    by (metis list.set_map)
  then show ?thesis
    by (simp add: row_dict_def map_of_eq_None_iff)
qed

lemma row_dict_header:
  "length r = 3 \<Longrightarrow>
   row_dict header r = [''VoterID'' \<mapsto> PyStr (voter_of r), ''Vote'' \<mapsto> PyStr (vote_of r), ''Total'' \<mapsto> PyStr (total_of r)]"
proof -
  assume "length r = 3"
  then obtain a b c where r: "r = [a, b, c]"
    by (metis (no_types, opaque_lifting) length_0_conv length_Suc_conv numeral_3_eq_3)
  show ?thesis
    unfolding r row_dict_def header_def voter_of_def vote_of_def total_of_def
    by (rule ext) simp
qed

lemma dict_rows_records: "rows \<noteq> [] \<Longrightarrow> dict_rows rows = map (row_dict (hd rows)) (records rows)"
  by (cases rows) (simp_all add: dict_rows_def records_def)

lemma row_dict_keys_ex: "(\<exists>y. row_dict h r k = Some y) = (k \<in> set h)"
  using row_dict_keys [of h r k] by simp

lemma count_votes_records:
  "rows \<noteq> [] \<Longrightarrow>
   count_votes rows = (if ''VoterID'' \<in> set (hd rows) then length (records rows) else 0)"
  by (simp add: count_votes_def dict_rows_records filter_map o_def row_dict_keys_ex)

lemma records_append:
  "rows \<noteq> [] \<Longrightarrow> r \<noteq> [] \<Longrightarrow> records (rows @ [r]) = records rows @ [r]"
  by (cases rows) (simp_all add: records_def)

section \<open>Vote logs\<close>

lemma log_file_records: "log_file rows \<Longrightarrow> records rows = tl rows"
proof -
  assume "log_file rows"
  then have "list_all (\<lambda>r. length r = 3) (tl rows)" by (simp add: log_file_def)
  then have "\<forall>r \<in> set (tl rows). r \<noteq> []" by (auto simp: list_all_iff)
  then show ?thesis by (simp add: records_def)
qed

lemma log_file_length: "log_file rows \<Longrightarrow> r \<in> set (records rows) \<Longrightarrow> length r = 3"
  by (simp add: log_file_records) (simp add: log_file_def list_all_iff)

lemma log_file_fieldnames: "log_file rows \<Longrightarrow> fieldnames rows = Some header"
  by (cases rows) (simp_all add: log_file_def fieldnames_def)

lemma log_file_append:
  "log_file rows \<Longrightarrow> log_file (rows @ [[v, c, t]])"
  by (cases rows) (simp_all add: log_file_def)

lemma log_file_header: "log_file [header]"
  by (simp add: log_file_def)

lemma log_file_count: "log_file rows \<Longrightarrow> count_votes rows = length (records rows)"
  by (simp add: count_votes_records log_file_def header_def)

lemma log_file_has_voted:
  "log_file rows \<Longrightarrow> has_voted rows v = (v \<in> voter_of ` set (records rows))"
proof -
  assume l: "log_file rows"
  then have ne: "rows \<noteq> []" and h: "hd rows = header" by (simp_all add: log_file_def)
  have "\<And>r. r \<in> set (records rows) \<Longrightarrow>
      (row_dict header r ''VoterID'' = Some (PyStr v)) = (v = voter_of r)"
    using log_file_length [OF l] by (auto simp add: row_dict_header)
  then show ?thesis
    by (auto simp add: has_voted_def dict_rows_records ne h list_ex_iff)
qed

lemma str_nat_1: "str_nat (Suc 0) = ''1''"
  by (simp add: str_nat.simps digit_chars_def)

section \<open>The operations of the FileManager\<close>

lemma store_simps:
  "files (store fs p rows) p = Some rows"
  "resolve fs q \<noteq> resolve fs p \<Longrightarrow> files (store fs p rows) q = files fs q"
  "resolve (store fs p rows) = resolve fs"
  "can_read (store fs p rows) = can_read fs"
  "can_write (store fs p rows) = can_write fs"
  "can_remove (store fs p rows) = can_remove fs"
  by (simp_all add: store_def files_def)

lemma log_vote_cases:
  "log_vote fs fn v c = fs \<or>
   (can_write fs fn \<and>
    (files fs fn = None \<and> log_vote fs fn v c = store fs fn [header, [v, c, ''1'']] \<or>
     (\<exists>rows. files fs fn = Some rows \<and> can_read fs fn \<and>
        log_vote fs fn v c =
          store fs fn (rows @ (if rows = [] then [header] else [])
                            @ [[v, c, str_nat (count_votes rows + 1)]]))))"
  by (auto simp add: log_vote_def path_exists_def open_read_def open_append_def Let_def str_nat_1
      split: option.splits if_splits)

lemma log_vote_present:
  "files fs fn = Some rows \<Longrightarrow> rows \<noteq> [] \<Longrightarrow> can_read fs fn \<Longrightarrow> can_write fs fn \<Longrightarrow>
   log_vote fs fn v c = store fs fn (rows @ [[v, c, str_nat (count_votes rows + 1)]])"
  by (simp add: log_vote_def path_exists_def open_read_def open_append_def Let_def)

lemma log_vote_log:
  "files fs fn = Some rows \<Longrightarrow> log_file rows \<Longrightarrow> can_read fs fn \<Longrightarrow> can_write fs fn \<Longrightarrow>
   log_vote fs fn v c = store fs fn (rows @ [[v, c, str_nat (length (records rows) + 1)]])"
proof -
  assume f: "files fs fn = Some rows" and l: "log_file rows"
    and r: "can_read fs fn" and w: "can_write fs fn"
  from l have "rows \<noteq> []" by (simp add: log_file_def)
  with f r w show ?thesis by (simp add: log_vote_present log_file_count [OF l])
qed

lemma log_vote_absent:
  "files fs fn = None \<Longrightarrow> can_write fs fn \<Longrightarrow>
   log_vote fs fn v c = store fs fn [header, [v, c, ''1'']]"
  by (simp add: log_vote_def path_exists_def open_append_def Let_def str_nat_1)

lemma log_vote_refused:
  "\<not> can_write fs fn \<Longrightarrow> log_vote fs fn v c = fs"
  by (simp add: log_vote_def open_append_def Let_def split: option.splits)

lemma log_vote_env:
  "can_read (log_vote fs fn v c) = can_read fs"
  "can_write (log_vote fs fn v c) = can_write fs"
  "can_remove (log_vote fs fn v c) = can_remove fs"
  using log_vote_cases [of fs fn v c] by (auto simp add: store_simps)

lemma log_vote_other:
  "resolve fs p \<noteq> resolve fs fn \<Longrightarrow> files (log_vote fs fn v c) p = files fs p"
  using log_vote_cases [of fs fn v c] by (auto simp add: store_simps)

lemma log_vote_log_store: "log_store fs fn \<Longrightarrow> log_store (log_vote fs fn v c) fn"
  using log_vote_cases [of fs fn v c]
  by (auto simp add: log_store_def store_simps log_file_append log_file_def)

lemma ensure_file_exists_env:
  "can_read (ensure_file_exists fs fn) = can_read fs"
  "can_write (ensure_file_exists fs fn) = can_write fs"
  "can_remove (ensure_file_exists fs fn) = can_remove fs"
  by (simp_all add: ensure_file_exists_def store_simps)

lemma ensure_file_exists_log_store:
  "log_store fs fn \<Longrightarrow> log_store (ensure_file_exists fs fn) fn"
  by (simp add: ensure_file_exists_def log_store_def store_simps log_file_header)

lemma reset_counts_env:
  "can_read (reset_counts fs fn) = can_read fs"
  "can_write (reset_counts fs fn) = can_write fs"
  "can_remove (reset_counts fs fn) = can_remove fs"
  by (simp_all add: reset_counts_def os_remove_def ensure_file_exists_env split: option.splits)

text \<open>No operation of the manager changes what a path names.\<close>

lemma resolve_preserved:
  "resolve (log_vote fs fn v c) = resolve fs"
  "resolve (ensure_file_exists fs fn) = resolve fs"
  "resolve (reset_counts fs fn) = resolve fs"
proof -
  show "resolve (log_vote fs fn v c) = resolve fs"
    using log_vote_cases [of fs fn v c] by (auto simp add: store_simps)
  show e: "\<And>fs. resolve (ensure_file_exists fs fn) = resolve fs"
    by (simp add: ensure_file_exists_def store_simps)
  show "resolve (reset_counts fs fn) = resolve fs"
    by (simp add: reset_counts_def e os_remove_def split: option.splits)
qed

lemma reset_counts_log_store:
  "log_store fs fn \<Longrightarrow> log_store (reset_counts fs fn) fn"
proof -
  assume l: "log_store fs fn"
  let ?fs = "case os_remove fs ''data.csv'' of None \<Rightarrow> fs | Some fs' \<Rightarrow> fs'"
  have "log_store ?fs fn"
    using l by (simp add: os_remove_def log_store_def files_def)
  then show ?thesis
    unfolding reset_counts_def by (rule ensure_file_exists_log_store)
qed

section \<open>The ballot handler\<close>

lemma validate_input_strip: "validate_input (strip s) = (strip s \<noteq> [])"
  by (simp add: validate_input_def strip_idem)

lemma py_int_validate: "py_int (strip s) \<noteq> None \<Longrightarrow> validate_input (strip s)"
  using py_int_nonempty [of "strip s"] by (simp add: validate_input_def strip_idem)

lemma cast_choice_snd:
  "snd (cast_choice fs fn v b l) = fs \<or>
   (\<exists>name. fst (cast_choice fs fn v b l) = Inr (Thanks name) \<and>
           snd (cast_choice fs fn v b l) = log_vote fs fn v name)"
  by (cases b) (simp_all add: cast_choice_def Let_def)

lemma cast_choice_number:
  "py_int (strip l) \<noteq> None \<Longrightarrow> cast_choice fs fn v OtherRadio l = (Inr NameIsNumber, fs)"
  by (simp add: cast_choice_def Let_def py_int_validate)

lemma on_button_click_invalid:
  "py_int (strip i) = None \<Longrightarrow>
   on_button_click fs fn i b l =
     (Inr (if strip i = [] then VoterIdRequired else VoterIdNotNumber), fs)"
  by (simp add: on_button_click_def Let_def validate_input_strip)

lemma on_button_click_unreadable:
  "py_int (strip i) \<noteq> None \<Longrightarrow> open_read fs fn = None \<Longrightarrow>
   on_button_click fs fn i b l = (Inr ErrorReadingFile, fs)"
  by (simp add: on_button_click_def Let_def py_int_validate)

lemma has_voted_fieldnames:
  "has_voted rows v \<Longrightarrow> \<exists>h. fieldnames rows = Some h \<and> ''VoterID'' \<in> set h"
proof -
  assume hv: "has_voted rows v"
  then have ne: "rows \<noteq> []" by (auto simp add: has_voted_def dict_rows_def)
  from hv obtain r where "row_dict (hd rows) r ''VoterID'' = Some (PyStr v)"
    by (auto simp add: has_voted_def dict_rows_records [OF ne] list_ex_iff)
  then have "row_dict (hd rows) r ''VoterID'' \<noteq> None" by simp
  then have "''VoterID'' \<in> set (hd rows)" by (simp only: row_dict_keys)
  with ne show ?thesis by (cases rows) (simp_all add: fieldnames_def)
qed

lemma on_button_click_duplicate:
  "py_int (strip i) \<noteq> None \<Longrightarrow> open_read fs fn = Some rows \<Longrightarrow> has_voted rows (strip i) \<Longrightarrow>
   on_button_click fs fn i b l = (Inr AlreadyVoted, fs)"
proof -
  assume p: "py_int (strip i) \<noteq> None" and o: "open_read fs fn = Some rows"
    and hv: "has_voted rows (strip i)"
  from has_voted_fieldnames [OF hv] obtain h
    where "fieldnames rows = Some h" and "''VoterID'' \<in> set h" by blast
  with p o hv show ?thesis
    by (simp add: on_button_click_def Let_def py_int_validate)
qed

lemma on_button_click_new:
  "py_int (strip i) \<noteq> None \<Longrightarrow> open_read fs fn = Some rows \<Longrightarrow> fieldnames rows = Some h \<Longrightarrow>
   ''VoterID'' \<in> set h \<Longrightarrow> \<not> has_voted rows (strip i) \<Longrightarrow>
   on_button_click fs fn i b l = cast_choice fs fn (strip i) b l"
  by (auto simp add: on_button_click_def Let_def py_int_validate)

lemma on_button_click_cases:
  "(\<exists>m. on_button_click fs fn i b l = (m, fs) \<and> (\<forall>name. m \<noteq> Inr (Thanks name))) \<or>
   on_button_click fs fn i b l = cast_choice fs fn (strip i) b l"
  by (simp add: on_button_click_def Let_def split: option.splits)

lemma on_button_click_snd:
  "snd (on_button_click fs fn i b l) = fs \<or>
   (\<exists>name. fst (on_button_click fs fn i b l) = Inr (Thanks name) \<and>
           snd (on_button_click fs fn i b l) = log_vote fs fn (strip i) name)"
  using on_button_click_cases [of fs fn i b l] cast_choice_snd [of fs fn "strip i" b l]
  by auto

lemma on_button_click_env:
  "can_read (snd (on_button_click fs fn i b l)) = can_read fs"
  "can_write (snd (on_button_click fs fn i b l)) = can_write fs"
  "can_remove (snd (on_button_click fs fn i b l)) = can_remove fs"
  using on_button_click_snd [of fs fn i b l] by (auto simp add: log_vote_env)

lemma on_button_click_log_store:
  "log_store fs fn \<Longrightarrow> log_store (snd (on_button_click fs fn i b l)) fn"
  using on_button_click_snd [of fs fn i b l] by (auto simp add: log_vote_log_store)

lemma do_op_env:
  "can_read (do_op fs x) = can_read fs"
  "can_write (do_op fs x) = can_write fs"
  "can_remove (do_op fs x) = can_remove fs"
  by (cases x; simp add: on_button_click_env reset_votes_def reset_counts_env)+

lemma do_op_log_store: "log_store fs data_csv \<Longrightarrow> log_store (do_op fs x) data_csv"
  by (cases x) (simp_all add: on_button_click_log_store reset_votes_def reset_counts_log_store)

lemma run_env:
  "can_read (run fs ops) = can_read fs"
  "can_write (run fs ops) = can_write fs"
  "can_remove (run fs ops) = can_remove fs"
  unfolding run_def by (induction ops arbitrary: fs; simp add: do_op_env)+

lemma run_log_store: "log_store fs data_csv \<Longrightarrow> log_store (run fs ops) data_csv"
  unfolding run_def by (induction ops arbitrary: fs) (simp_all add: do_op_log_store)

lemma startup_log_store: "log_store fs data_csv \<Longrightarrow> log_store (startup fs) data_csv"
  by (simp add: startup_def ensure_file_exists_log_store)

section \<open>Evaluation on concrete inputs\<close>

lemmas string_eval =
  strip_def isspace_def int_trim_def int_isspace_def py_int_def valid_digits_def isdigit_def digit_chars_def
  int_max_str_digits_def digits_value_def digit_val_def validate_input_def Let_def

lemmas csv_eval =
  has_voted_def dict_rows_def row_dict_def fieldnames_def count_votes_def records_def
  header_def one_vote_def

lemmas fs_eval =
  permissive_def read_only_def files_def open_read_def open_append_def path_exists_def
  store_def os_remove_def data_csv_def

lemmas handler_eval =
  on_button_click_def cast_choice_def log_vote_def ensure_file_exists_def reset_counts_def
  reset_votes_def run_def log_store_def log_file_def str_nat.simps

section \<open>The duplicate check\<close>

lemma has_voted_count:
  "has_voted rows v \<Longrightarrow> rows \<noteq> [] \<and> count_votes rows = length (records rows)"
proof -
  assume hv: "has_voted rows v"
  from has_voted_fieldnames [OF hv] obtain h
    where h: "fieldnames rows = Some h" "''VoterID'' \<in> set h" by blast
  then have ne: "rows \<noteq> []" by (auto simp add: fieldnames_def)
  with h have "''VoterID'' \<in> set (hd rows)" by (cases rows) (simp_all add: fieldnames_def)
  with ne show ?thesis by (simp add: count_votes_records)
qed

text \<open>
  C1 (amended). \<^verbatim>\<open>log_vote\<close> has no duplicate check of its own. On every store that can
  be read and written and already holds a record of voter \<open>v\<close>, \<open>log_vote v c\<close> appends
  one more record \<open>(v, c, number of records + 1)\<close>. The duplicate is refused by the
  caller only: in the same state \<^verbatim>\<open>on_button_click\<close> with a numeric voter id that trims
  to \<open>v\<close> shows the already-voted error and leaves the file system as it was, without
  calling \<open>log_vote\<close>.
\<close>

theorem log_vote_no_duplicate_check:
  assumes "open_read fs fn = Some rows" and "can_write fs fn" and "has_voted rows v"
  shows "log_vote fs fn v c = store fs fn (rows @ [[v, c, str_nat (length (records rows) + 1)]])
       \<and> has_voted (rows @ [[v, c, str_nat (length (records rows) + 1)]]) v
       \<and> (\<forall>i b l. strip i = v \<and> py_int v \<noteq> None \<longrightarrow>
             on_button_click fs fn i b l = (Inr AlreadyVoted, fs))"
proof -
  from assms(1) have f: "files fs fn = Some rows" and r: "can_read fs fn"
    by (simp_all add: open_read_def split: if_splits)
  from has_voted_count [OF assms(3)]
  have ne: "rows \<noteq> []" and c: "count_votes rows = length (records rows)" by simp_all
  have 1: "log_vote fs fn v c = store fs fn (rows @ [[v, c, str_nat (length (records rows) + 1)]])"
    using log_vote_present [OF f ne r assms(2), of v c] by (simp add: c)
  have 2: "has_voted (rows @ [[v, c, str_nat (length (records rows) + 1)]]) v"
    using assms(3) ne by (cases rows) (auto simp add: has_voted_def dict_rows_def)
  have 3: "\<forall>i b l. strip i = v \<and> py_int v \<noteq> None \<longrightarrow>
             on_button_click fs fn i b l = (Inr AlreadyVoted, fs)"
    using on_button_click_duplicate [OF _ assms(1)] assms(3) by auto
  from 1 2 3 show ?thesis by simp
qed

theorem log_vote_no_duplicate_check_witness:
  "open_read (permissive [data_csv \<mapsto> one_vote]) data_csv = Some one_vote
   \<and> can_write (permissive [data_csv \<mapsto> one_vote]) data_csv
   \<and> has_voted one_vote ''1''
   \<and> log_vote (permissive [data_csv \<mapsto> one_vote]) data_csv ''1'' ''John''
       = store (permissive [data_csv \<mapsto> one_vote]) data_csv
           [header, [''1'', ''Jane'', ''1''], [''1'', ''John'', ''2'']]
   \<and> on_button_click (permissive [data_csv \<mapsto> one_vote]) data_csv '' 1 '' JohnRadio []
       = (Inr AlreadyVoted, permissive [data_csv \<mapsto> one_vote])"
proof -
  let ?fs = "permissive [data_csv \<mapsto> one_vote]"
  have a: "open_read ?fs data_csv = Some one_vote" by (simp add: fs_eval)
  have b: "can_write ?fs data_csv" by (simp add: fs_eval)
  have c: "has_voted one_vote ''1''" by (simp add: csv_eval)
  have s: "strip '' 1 '' = ''1''" by (simp add: string_eval)
  have p: "py_int ''1'' \<noteq> None" by (simp add: string_eval)
  have n: "str_nat (length (records one_vote) + 1) = ''2''"
    by (simp add: csv_eval str_nat.simps digit_chars_def)
  from log_vote_no_duplicate_check [OF a b c, of "''John''"] s p n a b c
  show ?thesis by (simp add: one_vote_def)
qed

text \<open>
  C1 as stated fails: the store holds a record of voter \<open>1\<close>, and \<open>log_vote\<close> for voter
  \<open>1\<close> appends a second one.
\<close>

theorem log_vote_duplicate_counterexample:
  "has_voted one_vote ''1''
   \<and> files (log_vote (permissive [data_csv \<mapsto> one_vote]) data_csv ''1'' ''John'') data_csv
       = Some [header, [''1'', ''Jane'', ''1''], [''1'', ''John'', ''2'']]"
  by (simp add: csv_eval fs_eval log_vote_def str_nat.simps digit_chars_def)

section \<open>Runs of the window\<close>

lemma cast_choice_thanks:
  "fst (cast_choice fs fn v b l) = Inr (Thanks name) \<Longrightarrow>
   snd (cast_choice fs fn v b l) = log_vote fs fn v name"
  by (cases b) (auto simp add: cast_choice_def Let_def split: if_splits)

lemma on_button_click_thanks:
  assumes "fst (on_button_click fs fn i b l) = Inr (Thanks name)"
  shows "py_int (strip i) \<noteq> None
       \<and> (\<exists>rows. open_read fs fn = Some rows \<and> \<not> has_voted rows (strip i))
       \<and> snd (on_button_click fs fn i b l) = log_vote fs fn (strip i) name"
proof -
  from assms on_button_click_cases [of fs fn i b l]
  have eq: "on_button_click fs fn i b l = cast_choice fs fn (strip i) b l" by auto
  with assms have "snd (on_button_click fs fn i b l) = log_vote fs fn (strip i) name"
    by (simp add: cast_choice_thanks)
  moreover from assms have "py_int (strip i) \<noteq> None"
    by (auto simp add: on_button_click_def Let_def split: if_splits)
  moreover from assms have "\<exists>rows. open_read fs fn = Some rows \<and> \<not> has_voted rows (strip i)"
    by (auto simp add: on_button_click_def Let_def split: if_splits option.splits)
  ultimately show ?thesis by simp
qed

lemma has_voted_append: "rows \<noteq> [] \<Longrightarrow> has_voted rows v \<Longrightarrow> has_voted (rows @ [r]) v"
  by (cases rows) (auto simp add: has_voted_def dict_rows_def)

lemma has_voted_new: "log_file rows \<Longrightarrow> has_voted (rows @ [[v, c, t]]) v"
proof -
  assume l: "log_file rows"
  then have "log_file (rows @ [[v, c, t]])" by (rule log_file_append)
  moreover from l have "records (rows @ [[v, c, t]]) = records rows @ [[v, c, t]]"
    by (simp add: records_append log_file_def)
  ultimately show ?thesis by (simp add: log_file_has_voted voter_of_def)
qed

lemma log_vote_voted:
  "log_store fs fn \<Longrightarrow> voted fs fn u \<Longrightarrow> voted (log_vote fs fn v c) fn u"
  using log_vote_cases [of fs fn v c]
  by (auto simp add: voted_def log_store_def store_simps log_file_def has_voted_append
      split: option.splits)

lemma log_vote_records:
  "open_read fs fn = Some rows \<Longrightarrow> log_file rows \<Longrightarrow> can_write fs fn \<Longrightarrow>
   files (log_vote fs fn v c) fn = Some (rows @ [[v, c, str_nat (length (records rows) + 1)]])"
proof -
  assume o: "open_read fs fn = Some rows" and l: "log_file rows" and w: "can_write fs fn"
  from o have f: "files fs fn = Some rows" and r: "can_read fs fn"
    by (simp_all add: open_read_def split: if_splits)
  show ?thesis by (simp add: log_vote_log [OF f l r w] store_simps)
qed

lemma on_button_click_voted:
  "log_store fs fn \<Longrightarrow> voted fs fn u \<Longrightarrow> voted (snd (on_button_click fs fn i b l)) fn u"
  using on_button_click_snd [of fs fn i b l] by (auto simp add: log_vote_voted)

lemma run_append: "run fs (xs @ ys) = run (run fs xs) ys"
  by (simp add: run_def)

lemma run_voted:
  "log_store fs data_csv \<Longrightarrow> voted fs data_csv u \<Longrightarrow> ResetVotes \<notin> set ops \<Longrightarrow>
   voted (run fs ops) data_csv u"
proof (induction ops arbitrary: fs)
  case Nil
  then show ?case by (simp add: run_def)
next
  case (Cons x ops)
  from Cons.prems have x: "x \<noteq> ResetVotes" and ops: "ResetVotes \<notin> set ops" by auto
  have l: "log_store (do_op fs x) data_csv" using Cons.prems(1) by (rule do_op_log_store)
  have v: "voted (do_op fs x) data_csv u"
    using x Cons.prems(1,2) by (cases x) (simp_all add: on_button_click_voted)
  have "run fs (x # ops) = run (do_op fs x) ops" by (simp add: run_def)
  with Cons.IH [OF l v ops] show ?case by simp
qed

lemma thanks_voted:
  assumes "log_store fs fn" and "can_write fs fn"
    and "fst (on_button_click fs fn i b l) = Inr (Thanks name)"
  shows "voted (snd (on_button_click fs fn i b l)) fn (strip i) \<and> can_read fs fn"
proof -
  from on_button_click_thanks [OF assms(3)] obtain rows
    where o: "open_read fs fn = Some rows"
      and s: "snd (on_button_click fs fn i b l) = log_vote fs fn (strip i) name" by blast
  from o have f: "files fs fn = Some rows" and r: "can_read fs fn"
    by (simp_all add: open_read_def split: if_splits)
  from assms(1) f have l: "log_file rows" by (simp add: log_store_def)
  from log_vote_records [OF o l assms(2)] has_voted_new [OF l] r
  show ?thesis by (simp add: s voted_def)
qed

text \<open>
  C2. Start from a store that is absent or a vote log, in an environment that lets the
  store be written. After any operations \<open>before\<close>, let a ballot of a voter succeed;
  after any further ballots and looks at the results \<open>later\<close> (no reset, which wipes
  the used voter ids), every ballot whose voter id trims to the same text shows the
  already-voted error, a \<open>DuplicateVoterError\<close>, whatever it chooses, and leaves the
  file system and so \<^verbatim>\<open>read_results\<close> and \<^verbatim>\<open>view_results\<close> as they were.
\<close>

theorem second_vote_rejected:
  assumes "log_store fs data_csv" and "can_write fs data_csv"
    and "fst (on_button_click (run fs before) data_csv i b l) = Inr (Thanks name)"
    and "ResetVotes \<notin> set later"
    and "strip i' = strip i"
  shows "on_button_click (run fs (before @ CastVote i b l # later)) data_csv i' b' l'
           = (Inr AlreadyVoted, run fs (before @ CastVote i b l # later))
       \<and> kind_of AlreadyVoted = Some DuplicateVoterError
       \<and> read_results
           (snd (on_button_click (run fs (before @ CastVote i b l # later)) data_csv i' b' l'))
           data_csv
           = read_results (run fs (before @ CastVote i b l # later)) data_csv"
proof -
  let ?s1 = "run fs before"
  let ?s2 = "do_op ?s1 (CastVote i b l)"
  let ?s = "run fs (before @ CastVote i b l # later)"
  have s: "?s = run ?s2 later" by (simp add: run_def)
  have l1: "log_store ?s1 data_csv" using assms(1) by (rule run_log_store)
  have w1: "can_write ?s1 data_csv" using assms(2) by (simp add: run_env)
  from thanks_voted [OF l1 w1 assms(3)]
  have v2: "voted ?s2 data_csv (strip i)" and r1: "can_read ?s1 data_csv" by simp_all
  have l2: "log_store ?s2 data_csv" using l1 by (rule do_op_log_store)
  have v: "voted ?s data_csv (strip i)"
    unfolding s using l2 v2 assms(4) by (rule run_voted)
  then obtain rows where f: "files ?s data_csv = Some rows" and hv: "has_voted rows (strip i)"
    by (auto simp add: voted_def split: option.splits)
  have "can_read ?s data_csv" using r1 by (simp add: run_env)
  with f have o: "open_read ?s data_csv = Some rows" by (simp add: open_read_def)
  from on_button_click_thanks [OF assms(3)] have p: "py_int (strip i') \<noteq> None"
    by (simp add: assms(5))
  from hv have hv': "has_voted rows (strip i')" by (simp add: assms(5))
  have "on_button_click ?s data_csv i' b' l' = (Inr AlreadyVoted, ?s)"
    using p o hv' by (rule on_button_click_duplicate)
  then show ?thesis by simp
qed

theorem second_vote_rejected_witness:
  "log_store (permissive [data_csv \<mapsto> [header]]) data_csv
   \<and> can_write (permissive [data_csv \<mapsto> [header]]) data_csv
   \<and> fst (on_button_click (run (permissive [data_csv \<mapsto> [header]]) []) data_csv
            ''1'' JaneRadio []) = Inr (Thanks ''Jane'')
   \<and> ResetVotes \<notin> set [ViewResults]
   \<and> strip ''1 '' = strip ''1''
   \<and> on_button_click
         (run (permissive [data_csv \<mapsto> [header]])
            ([] @ CastVote ''1'' JaneRadio [] # [ViewResults]))
         data_csv ''1 '' JohnRadio []
       = (Inr AlreadyVoted,
          run (permissive [data_csv \<mapsto> [header]])
            ([] @ CastVote ''1'' JaneRadio [] # [ViewResults]))"
proof -
  let ?fs = "permissive [data_csv \<mapsto> [header]]"
  have a: "log_store ?fs data_csv" by (simp add: fs_eval handler_eval)
  have b: "can_write ?fs data_csv" by (simp add: fs_eval)
  have c: "fst (on_button_click (run ?fs []) data_csv ''1'' JaneRadio []) = Inr (Thanks ''Jane'')"
    by (simp add: fs_eval handler_eval string_eval csv_eval)
  have d: "ResetVotes \<notin> set [ViewResults]" by simp
  have e: "strip ''1 '' = strip ''1''" by (simp add: string_eval)
  from second_vote_rejected [OF a b c d e, of JohnRadio "[]"] a b c d e
  show ?thesis by simp
qed

section \<open>Reading the results of a vote log\<close>

lemma tally_row_log:
  "length r = 3 \<Longrightarrow>
   tally_row (row_dict header r) (res, t) =
     Inr (res(PyStr (vote_of r) \<mapsto> (case res (PyStr (vote_of r)) of None \<Rightarrow> 0 | Some n \<Rightarrow> n) + 1),
          t + 1)"
  by (simp add: tally_row_def row_dict_header)

text \<open>
  The accumulator of the loop after the records \<open>recs\<close>, from the accumulator \<open>res\<close>:
  a name without a vote keeps its entry, a name with votes has them added.
\<close>

lemma tally_rows_log:
  "list_all (\<lambda>r. length r = 3) recs \<Longrightarrow>
   \<exists>res'. tally_rows (map (row_dict header) recs) (res, t) = Inr (res', t + int (length recs))
     \<and> res' PyNone = res PyNone
     \<and> (\<forall>k. res' (PyStr k) =
           (if votes_for recs k = 0 then res (PyStr k)
            else Some ((case res (PyStr k) of None \<Rightarrow> 0 | Some n \<Rightarrow> n) + int (votes_for recs k))))"
proof (induction recs arbitrary: res t)
  case Nil
  then show ?case by (simp add: votes_for_def)
next
  case (Cons r recs)
  from Cons.prems have r: "length r = 3" and recs: "list_all (\<lambda>r. length r = 3) recs" by simp_all
  let ?res = "res(PyStr (vote_of r) \<mapsto> (case res (PyStr (vote_of r)) of None \<Rightarrow> 0 | Some n \<Rightarrow> n) + 1)"
  from Cons.IH [OF recs, of ?res "t + 1"] obtain res'
    where 1: "tally_rows (map (row_dict header) recs) (?res, t + 1) = Inr (res', t + 1 + int (length recs))"
      and 2: "res' PyNone = ?res PyNone"
      and 3: "\<And>k. res' (PyStr k) =
           (if votes_for recs k = 0 then ?res (PyStr k)
            else Some ((case ?res (PyStr k) of None \<Rightarrow> 0 | Some n \<Rightarrow> n) + int (votes_for recs k)))"
    by blast
  have "tally_rows (map (row_dict header) (r # recs)) (res, t) = Inr (res', t + int (length (r # recs)))"
    using 1 by (simp add: tally_row_log [OF r] add.assoc)
  moreover have "res' PyNone = res PyNone" using 2 by simp
  moreover have "\<forall>k. res' (PyStr k) =
           (if votes_for (r # recs) k = 0 then res (PyStr k)
            else Some ((case res (PyStr k) of None \<Rightarrow> 0 | Some n \<Rightarrow> n) + int (votes_for (r # recs) k)))"
    by (auto simp add: 3 votes_for_def)
  ultimately show ?case by blast
qed

lemma read_results_log:
  assumes "open_read fs fn = Some rows" and "log_file rows"
  shows "read_results fs fn = Inr (tally_of (records rows))"
proof -
  from assms(2) have ne: "rows \<noteq> []" and h: "hd rows = header"
    and all: "list_all (\<lambda>r. length r = 3) (records rows)"
    by (simp_all add: log_file_records [OF assms(2)]) (simp_all add: log_file_def)
  from tally_rows_log [OF all, of initial_results 0] obtain res'
    where 1: "tally_rows (map (row_dict header) (records rows)) (initial_results, 0)
                = Inr (res', int (length (records rows)))"
      and 2: "res' PyNone = initial_results PyNone"
      and 3: "\<And>k. res' (PyStr k) =
           (if votes_for (records rows) k = 0 then initial_results (PyStr k)
            else Some ((case initial_results (PyStr k) of None \<Rightarrow> 0 | Some n \<Rightarrow> n)
                       + int (votes_for (records rows) k)))"
    by auto
  have "res'(PyStr ''Total'' \<mapsto> int (length (records rows))) = tally_of (records rows)"
  proof
    fix k show "(res'(PyStr ''Total'' \<mapsto> int (length (records rows)))) k = tally_of (records rows) k"
      by (cases k) (auto simp add: 2 3 tally_of_def initial_results_def)
  qed
  then show ?thesis
    by (simp add: read_results_def assms(1) dict_rows_records [OF ne] h 1)
qed

lemma read_results_unreadable:
  "open_read fs fn = None \<Longrightarrow> read_results fs fn = Inr initial_results"
  by (simp add: read_results_def)

section \<open>Sequences of ballots\<close>

lemma succeeded_simps:
  "succeeded (Inr (Thanks name))"
  "(\<forall>name. m \<noteq> Inr (Thanks name)) \<Longrightarrow> \<not> succeeded m"
  by (auto simp add: succeeded_def split: sum.splits message.splits)

lemma cast_choice_dichotomy:
  "(\<exists>name. cast_choice fs fn v b l = (Inr (Thanks name), log_vote fs fn v name)) \<or>
   (\<exists>m. cast_choice fs fn v b l = (m, fs) \<and> \<not> succeeded m)"
  by (cases b) (auto simp add: cast_choice_def Let_def succeeded_def)

lemma on_button_click_dichotomy:
  "(\<exists>name. on_button_click fs fn i b l = (Inr (Thanks name), log_vote fs fn (strip i) name)) \<or>
   (\<exists>m. on_button_click fs fn i b l = (m, fs) \<and> \<not> succeeded m)"
  using on_button_click_cases [of fs fn i b l] cast_choice_dichotomy [of fs fn "strip i" b l]
  by (auto simp add: succeeded_simps)

lemma cast_step:
  assumes "files fs fn = Some rows" and "log_file rows" and "can_read fs fn" and "can_write fs fn"
  shows "\<exists>rows'. files (snd (on_button_click fs fn i b l)) fn = Some rows' \<and> log_file rows'
     \<and> length (records rows') =
         length (records rows) + (if succeeded (fst (on_button_click fs fn i b l)) then 1 else 0)"
proof -
  from on_button_click_dichotomy [of fs fn i b l] show ?thesis
  proof (elim disjE exE conjE)
    fix name
    assume eq: "on_button_click fs fn i b l = (Inr (Thanks name), log_vote fs fn (strip i) name)"
    let ?rows = "rows @ [[strip i, name, str_nat (length (records rows) + 1)]]"
    from assms(2) have ne: "rows \<noteq> []" by (simp add: log_file_def)
    have "files (log_vote fs fn (strip i) name) fn = Some ?rows"
      by (simp add: log_vote_log [OF assms] store_simps)
    moreover have "log_file ?rows" using assms(2) by (rule log_file_append)
    moreover have "length (records ?rows) = length (records rows) + 1"
      using ne by (simp add: records_append)
    ultimately show ?thesis by (simp add: eq succeeded_simps)
  next
    fix m
    assume "on_button_click fs fn i b l = (m, fs)" and "\<not> succeeded m"
    with assms show ?thesis by simp
  qed
qed

lemma cast_all_Cons:
  "fst (cast_all fs ((i, b, l) # cs)) =
     fst (on_button_click fs data_csv i b l) # fst (cast_all (snd (on_button_click fs data_csv i b l)) cs)"
  "snd (cast_all fs ((i, b, l) # cs)) = snd (cast_all (snd (on_button_click fs data_csv i b l)) cs)"
  by (simp_all split: prod.splits)

lemma cast_all_env:
  "can_read (snd (cast_all fs casts)) = can_read fs \<and>
   can_write (snd (cast_all fs casts)) = can_write fs \<and>
   can_remove (snd (cast_all fs casts)) = can_remove fs"
proof (induction casts arbitrary: fs)
  case Nil
  show ?case by simp
next
  case (Cons c casts)
  obtain i b l where c: "c = (i, b, l)" by (cases c)
  obtain m fs' where o: "on_button_click fs data_csv i b l = (m, fs')" by (cases "on_button_click fs data_csv i b l")
  from on_button_click_env [of fs data_csv i b l] o
  have "can_read fs' = can_read fs" "can_write fs' = can_write fs" "can_remove fs' = can_remove fs"
    by simp_all
  with Cons.IH [of fs'] show ?case by (simp add: c o cast_all_Cons del: cast_all.simps)
qed

lemma cast_all_count:
  assumes "files fs data_csv = Some rows" and "log_file rows"
    and "can_read fs data_csv" and "can_write fs data_csv"
  shows "\<exists>rows'. files (snd (cast_all fs casts)) data_csv = Some rows' \<and> log_file rows'
     \<and> length (records rows') =
         length (records rows) + length (filter succeeded (fst (cast_all fs casts)))"
  using assms
proof (induction casts arbitrary: fs rows)
  case Nil
  then show ?case by simp
next
  case (Cons c casts)
  obtain i b l where c: "c = (i, b, l)" by (cases c)
  obtain m fs' where o: "on_button_click fs data_csv i b l = (m, fs')"
    by (cases "on_button_click fs data_csv i b l")
  from cast_step [OF Cons.prems, of i b l] o obtain rows1
    where f1: "files fs' data_csv = Some rows1" and l1: "log_file rows1"
      and n1: "length (records rows1) = length (records rows) + (if succeeded m then 1 else 0)"
    by auto
  from on_button_click_env [of fs data_csv i b l] o Cons.prems(3,4)
  have r1: "can_read fs' data_csv" and w1: "can_write fs' data_csv" by simp_all
  from Cons.IH [OF f1 l1 r1 w1] obtain rows'
    where "files (snd (cast_all fs' casts)) data_csv = Some rows'" and "log_file rows'"
      and "length (records rows') =
             length (records rows1) + length (filter succeeded (fst (cast_all fs' casts)))"
    by blast
  with n1 show ?case by (simp add: c o cast_all_Cons del: cast_all.simps)
qed

lemma valid_ballot_simps:
  "valid_ballot (i, JaneRadio, l) = (py_int (strip i) \<noteq> None)"
  "valid_ballot (i, JohnRadio, l) = (py_int (strip i) \<noteq> None)"
  "valid_ballot (i, OtherRadio, l) =
     (py_int (strip i) \<noteq> None \<and> strip l \<noteq> [] \<and> py_int (strip l) = None)"
  "valid_ballot (i, NoRadio, l) = False"
  by (simp_all add: valid_ballot_def)

lemma cast_choice_valid:
  "valid_ballot (i, b, l) \<Longrightarrow>
   \<exists>name. cast_choice fs fn v b l = (Inr (Thanks name), log_vote fs fn v name)"
  by (cases b) (auto simp add: valid_ballot_def cast_choice_def Let_def validate_input_strip)

lemma has_voted_snoc:
  "log_file rows \<Longrightarrow> has_voted (rows @ [[v, c, t]]) u = (has_voted rows u \<or> u = v)"
proof -
  assume l: "log_file rows"
  then have l': "log_file (rows @ [[v, c, t]])" by (rule log_file_append)
  from l have "records (rows @ [[v, c, t]]) = records rows @ [[v, c, t]]"
    by (simp add: records_append log_file_def)
  then show ?thesis
    by (auto simp add: log_file_has_voted [OF l] log_file_has_voted [OF l'] voter_of_def)
qed

lemma cast_valid_step:
  assumes "files fs fn = Some rows" and "log_file rows" and "can_read fs fn" and "can_write fs fn"
    and "valid_ballot (i, b, l)" and "\<not> has_voted rows (strip i)"
  shows "\<exists>name. on_button_click fs fn i b l =
           (Inr (Thanks name),
            store fs fn (rows @ [[strip i, name, str_nat (length (records rows) + 1)]]))"
proof -
  from assms(1,3) have o: "open_read fs fn = Some rows" by (simp add: open_read_def)
  from assms(5) have p: "py_int (strip i) \<noteq> None" by (simp add: valid_ballot_def)
  have h: "''VoterID'' \<in> set header" by (simp add: header_def)
  have "on_button_click fs fn i b l = cast_choice fs fn (strip i) b l"
    using p o log_file_fieldnames [OF assms(2)] h assms(6) by (rule on_button_click_new)
  with cast_choice_valid [OF assms(5), of fs fn "strip i"] show ?thesis
    by (auto simp add: log_vote_log [OF assms(1-4)])
qed

lemma cast_all_valid:
  assumes "files fs data_csv = Some rows" and "log_file rows"
    and "can_read fs data_csv" and "can_write fs data_csv"
    and "list_all valid_ballot casts" and "distinct (map (\<lambda>c. strip (fst c)) casts)"
    and "list_all (\<lambda>c. \<not> has_voted rows (strip (fst c))) casts"
  shows "list_all succeeded (fst (cast_all fs casts))"
  using assms
proof (induction casts arbitrary: fs rows)
  case Nil
  then show ?case by simp
next
  case (Cons c casts)
  obtain i b l where c: "c = (i, b, l)" by (cases c)
  from Cons.prems(5) have vb: "valid_ballot (i, b, l)" and vs: "list_all valid_ballot casts"
    by (simp_all add: c)
  from Cons.prems(7) have nv: "\<not> has_voted rows (strip i)" by (simp add: c)
  from cast_valid_step [OF Cons.prems(1-4) vb nv] obtain name
    where o: "on_button_click fs data_csv i b l =
           (Inr (Thanks name),
            store fs data_csv (rows @ [[strip i, name, str_nat (length (records rows) + 1)]]))"
    by blast
  let ?rows = "rows @ [[strip i, name, str_nat (length (records rows) + 1)]]"
  let ?fs = "store fs data_csv ?rows"
  have f: "files ?fs data_csv = Some ?rows" by (simp add: store_simps)
  have l: "log_file ?rows" using Cons.prems(2) by (rule log_file_append)
  have r: "can_read ?fs data_csv" and w: "can_write ?fs data_csv"
    using Cons.prems(3,4) by (simp_all add: store_simps)
  have d: "distinct (map (\<lambda>c. strip (fst c)) casts)" using Cons.prems(6) by simp
  from Cons.prems(6) have "strip i \<notin> (\<lambda>c. strip (fst c)) ` set casts" by (simp add: c)
  then have "\<forall>c\<in>set casts. strip (fst c) \<noteq> strip i" by force
  moreover from Cons.prems(7) have "\<forall>c\<in>set casts. \<not> has_voted rows (strip (fst c))"
    by (simp add: list_all_iff)
  ultimately have n: "list_all (\<lambda>c. \<not> has_voted ?rows (strip (fst c))) casts"
    by (simp add: list_all_iff has_voted_snoc [OF Cons.prems(2)])
  from Cons.IH [OF f l r w vs d n] show ?case
    by (simp add: c cast_all_Cons o succeeded_simps del: cast_all.simps)
qed

lemma cast_all_length: "length (fst (cast_all fs casts)) = length casts"
proof (induction casts arbitrary: fs)
  case Nil
  show ?case by simp
next
  case (Cons c casts)
  obtain i b l where c: "c = (i, b, l)" by (cases c)
  show ?case by (simp add: c cast_all_Cons Cons.IH del: cast_all.simps)
qed

text \<open>
  C4. On the empty vote log (the header alone, as \<open>startup\<close> and a reset leave it), in
  an environment that lets it be read and written, after any sequence of ballots whose
  trimmed voter ids are pairwise distinct \<^verbatim>\<open>read_results\<close> returns, and its \<^verbatim>\<open>Total\<close>
  is the number of ballots of the sequence that succeeded. When moreover every ballot is
  valid, every ballot succeeds and the total is the length of the sequence.
\<close>

theorem total_is_number_of_successes:
  assumes "files fs data_csv = Some [header]"
    and "can_read fs data_csv" and "can_write fs data_csv"
    and "distinct (map (\<lambda>c. strip (fst c)) casts)"
  shows "\<exists>res. read_results (snd (cast_all fs casts)) data_csv = Inr res
     \<and> res (PyStr ''Total'') = Some (int (length (filter succeeded (fst (cast_all fs casts)))))
     \<and> (list_all valid_ballot casts \<longrightarrow>
          list_all succeeded (fst (cast_all fs casts)) \<and>
          res (PyStr ''Total'') = Some (int (length casts)))"
proof -
  let ?ms = "fst (cast_all fs casts)" and ?fs = "snd (cast_all fs casts)"
  have l: "log_file [header]" by (rule log_file_header)
  from cast_all_count [OF assms(1) l assms(2,3), of casts] obtain rows'
    where f: "files ?fs data_csv = Some rows'" and l': "log_file rows'"
      and n: "length (records rows') = length (filter succeeded ?ms)"
    by (auto simp add: records_def)
  have "can_read ?fs data_csv" using assms(2) by (simp add: cast_all_env)
  with f have o: "open_read ?fs data_csv = Some rows'" by (simp add: open_read_def)
  have res: "read_results ?fs data_csv = Inr (tally_of (records rows'))"
    using o l' by (rule read_results_log)
  have t: "tally_of (records rows') (PyStr ''Total'') = Some (int (length (filter succeeded ?ms)))"
    by (simp add: tally_of_def n)
  have len: "length ?ms = length casts" by (rule cast_all_length)
  have v: "list_all valid_ballot casts \<longrightarrow>
      list_all succeeded ?ms \<and> length (filter succeeded ?ms) = length casts"
  proof
    assume vb: "list_all valid_ballot casts"
    have "list_all (\<lambda>c. \<not> has_voted [header] (strip (fst c))) casts"
      by (simp add: has_voted_def dict_rows_def list_all_iff)
    from cast_all_valid [OF assms(1) l assms(2,3) vb assms(4) this]
    have s: "list_all succeeded ?ms" .
    then have "filter succeeded ?ms = ?ms" by (simp add: list_all_iff)
    with s len show "list_all succeeded ?ms \<and> length (filter succeeded ?ms) = length casts"
      by simp
  qed
  from res t v show ?thesis by auto
qed

theorem total_is_number_of_successes_witness:
  "files (permissive [data_csv \<mapsto> [header]]) data_csv = Some [header]
   \<and> can_read (permissive [data_csv \<mapsto> [header]]) data_csv
   \<and> can_write (permissive [data_csv \<mapsto> [header]]) data_csv
   \<and> distinct (map (\<lambda>c. strip (fst c))
        [(''1'', JaneRadio, []), (''2'', JohnRadio, []), (''3'', OtherRadio, ''Ann'')])
   \<and> list_all valid_ballot
        [(''1'', JaneRadio, []), (''2'', JohnRadio, []), (''3'', OtherRadio, ''Ann'')]
   \<and> (\<exists>res. read_results
          (snd (cast_all (permissive [data_csv \<mapsto> [header]])
             [(''1'', JaneRadio, []), (''2'', JohnRadio, []), (''3'', OtherRadio, ''Ann'')]))
          data_csv = Inr res
        \<and> res (PyStr ''Total'') = Some 3)"
proof -
  let ?fs = "permissive [data_csv \<mapsto> [header]]"
  let ?casts = "[(''1'', JaneRadio, []), (''2'', JohnRadio, []), (''3'', OtherRadio, ''Ann'')]"
  have a: "files ?fs data_csv = Some [header]" by (simp add: fs_eval)
  have b: "can_read ?fs data_csv" by (simp add: fs_eval)
  have c: "can_write ?fs data_csv" by (simp add: fs_eval)
  have d: "distinct (map (\<lambda>c. strip (fst c)) ?casts)" by (simp add: string_eval)
  have e: "list_all valid_ballot ?casts"
    by (simp add: valid_ballot_simps) (simp add: string_eval)
  from total_is_number_of_successes [OF a b c d] obtain res
    where 1: "read_results (snd (cast_all ?fs ?casts)) data_csv = Inr res"
      and 2: "list_all valid_ballot ?casts \<longrightarrow>
          list_all succeeded (fst (cast_all ?fs ?casts)) \<and>
          res (PyStr ''Total'') = Some (int (length ?casts))"
    by blast
  from 2 e have "res (PyStr ''Total'') = Some 3" by simp
  with 1 have "\<exists>res. read_results (snd (cast_all ?fs ?casts)) data_csv = Inr res
        \<and> res (PyStr ''Total'') = Some 3" by blast
  with a b c d e show ?thesis by blast
qed

section \<open>Sequence numbers\<close>

lemma digit_cases:
  "d < 10 \<Longrightarrow> d = 0 \<or> d = 1 \<or> d = 2 \<or> d = 3 \<or> d = 4 \<or> d = 5 \<or> d = 6 \<or> d = 7 \<or> d = 8 \<or> d = (9::nat)"
  by arith

lemma digit_chars_nth:
  "d < 10 \<Longrightarrow> isdigit (digit_chars ! d) \<and> digit_val (digit_chars ! d) = d"
  using digit_cases [of d] by (auto simp add: isdigit_def digit_val_def digit_chars_def)

lemma digits_value_snoc:
  "isdigit c \<Longrightarrow> digits_value (s @ [c]) = 10 * digits_value s + digit_val c"
  by (simp add: digits_value_def)

lemma digits_value_str_nat: "digits_value (str_nat n) = n"
proof (induction n rule: str_nat.induct)
  case (1 n)
  show ?case
  proof (cases "n < 10")
    case True
    then show ?thesis
      using digits_value_snoc [of "digit_chars ! n" "[]"]
      by (simp add: str_nat.simps [of n] digit_chars_nth digits_value_def)
  next
    case False
    have d: "n mod 10 < 10" by simp
    from False 1 have "digits_value (str_nat (n div 10)) = n div 10" by simp
    with False show ?thesis
      by (simp add: str_nat.simps [of n] digits_value_snoc digit_chars_nth [OF d])
  qed
qed

lemma str_nat_inj: "str_nat m = str_nat n \<Longrightarrow> m = n"
proof -
  assume eq: "str_nat m = str_nat n"
  have "m = digits_value (str_nat m)" by (simp only: digits_value_str_nat)
  also have "\<dots> = digits_value (str_nat n)" by (simp only: eq)
  also have "\<dots> = n" by (simp only: digits_value_str_nat)
  finally show ?thesis .
qed

lemma numbered_length: "length (numbered n vcs) = length vcs"
  by (induction n vcs rule: numbered.induct) simp_all

lemma numbered_nth:
  "k < length vcs \<Longrightarrow>
   numbered n vcs ! k = [fst (vcs ! k), snd (vcs ! k), str_nat (n + k + 1)]"
proof (induction n vcs arbitrary: k rule: numbered.induct)
  case (1 n)
  then show ?case by simp
next
  case (2 n v c vcs)
  show ?case
  proof (cases k)
    case 0
    then show ?thesis by simp
  next
    case (Suc j)
    with "2.prems" have "j < length vcs" by simp
    from "2.IH" [OF this] Suc show ?thesis by simp
  qed
qed

lemma numbered_nonempty: "r \<in> set (numbered n vcs) \<Longrightarrow> r \<noteq> []"
  by (induction n vcs rule: numbered.induct) auto

lemma log_all_log:
  assumes "open_read fs fn = Some rows" and "log_file rows" and "can_write fs fn"
  shows "files (log_all fs fn vcs) fn = Some (rows @ numbered (length (records rows)) vcs)"
  using assms
proof (induction vcs arbitrary: fs rows)
  case Nil
  then show ?case by (simp add: open_read_def split: if_splits)
next
  case (Cons vc vcs)
  obtain v c where vc: "vc = (v, c)" by (cases vc)
  let ?n = "length (records rows)"
  let ?rows = "rows @ [[v, c, str_nat (?n + 1)]]"
  let ?fs = "log_vote fs fn v c"
  from Cons.prems(1) have r: "can_read fs fn" by (simp add: open_read_def split: if_splits)
  have f: "files ?fs fn = Some ?rows" using Cons.prems by (rule log_vote_records)
  with r have o: "open_read ?fs fn = Some ?rows" by (simp add: open_read_def log_vote_env)
  have l: "log_file ?rows" using Cons.prems(2) by (rule log_file_append)
  have w: "can_write ?fs fn" using Cons.prems(3) by (simp add: log_vote_env)
  from Cons.prems(2) have n: "length (records ?rows) = Suc ?n"
    by (simp add: records_append log_file_def)
  have "files (log_all ?fs fn vcs) fn = Some (?rows @ numbered (Suc ?n) vcs)"
    using Cons.IH [OF o l w] by (simp only: n)
  then show ?case by (simp add: vc)
qed

text \<open>
  C5. On a vote log that can be read and written, \<^verbatim>\<open>log_vote\<close> appends the record whose
  sequence number is the number of records in the store plus one. So a sequence of
  appends to a log of \<open>n\<close> records leaves the old records in place and appends one
  record for each vote, in order, and the \<open>k\<close>-th of them (counting from 0) carries the
  decimal text of \<open>n + k + 1\<close>, whose value is \<open>n + k + 1\<close>: from the empty log the
  numbers 1, 2, 3 and so on, each one more than the one before, none left out and none
  used twice.
\<close>

theorem sequence_numbers_consecutive:
  assumes "open_read fs fn = Some rows" and "log_file rows" and "can_write fs fn"
  shows "files (log_vote fs fn v c) fn
           = Some (rows @ [[v, c, str_nat (length (records rows) + 1)]])
     \<and> files (log_all fs fn vcs) fn = Some (rows @ numbered (length (records rows)) vcs)
     \<and> records (rows @ numbered (length (records rows)) vcs)
         = records rows @ numbered (length (records rows)) vcs
     \<and> length (numbered (length (records rows)) vcs) = length vcs
     \<and> (\<forall>k<length vcs.
           numbered (length (records rows)) vcs ! k
             = [fst (vcs ! k), snd (vcs ! k), str_nat (length (records rows) + k + 1)]
           \<and> digits_value (total_of (numbered (length (records rows)) vcs ! k))
               = length (records rows) + k + 1)"
proof -
  let ?n = "length (records rows)"
  let ?new = "numbered ?n vcs"
  have 1: "files (log_vote fs fn v c) fn = Some (rows @ [[v, c, str_nat (?n + 1)]])"
    using assms by (rule log_vote_records)
  have 2: "files (log_all fs fn vcs) fn = Some (rows @ ?new)"
    using assms by (rule log_all_log)
  from assms(2) have ne: "rows \<noteq> []" by (simp add: log_file_def)
  have "\<forall>r\<in>set ?new. r \<noteq> []" by (simp add: numbered_nonempty)
  then have "filter (\<lambda>r. r \<noteq> []) ?new = ?new" by (simp only: filter_True)
  with ne have 3: "records (rows @ ?new) = records rows @ ?new"
    by (cases rows) (simp_all add: records_def)
  have 4: "\<forall>k<length vcs.
           ?new ! k = [fst (vcs ! k), snd (vcs ! k), str_nat (?n + k + 1)]
           \<and> digits_value (total_of (?new ! k)) = ?n + k + 1"
    by (simp add: numbered_nth total_of_def digits_value_str_nat)
  have 5: "length ?new = length vcs" by (rule numbered_length)
  show ?thesis
    apply (intro conjI)
        apply (rule 1)
       apply (rule 2)
      apply (rule 3)
     apply (rule 5)
    apply (rule 4)
    done
qed

theorem sequence_numbers_consecutive_witness:
  "open_read (permissive [data_csv \<mapsto> one_vote]) data_csv = Some one_vote
   \<and> log_file one_vote
   \<and> can_write (permissive [data_csv \<mapsto> one_vote]) data_csv
   \<and> files (log_vote (permissive [data_csv \<mapsto> one_vote]) data_csv ''7'' ''John'') data_csv
       = Some [header, [''1'', ''Jane'', ''1''], [''7'', ''John'', ''2'']]
   \<and> files (log_all (permissive [data_csv \<mapsto> one_vote]) data_csv
              [(''7'', ''John''), (''8'', ''Ann'')]) data_csv
       = Some [header, [''1'', ''Jane'', ''1''], [''7'', ''John'', ''2''], [''8'', ''Ann'', ''3'']]
   \<and> (1::nat) < length [(''7'', ''John''), (''8'', ''Ann'')]
   \<and> digits_value (total_of (numbered (length (records one_vote))
                                 [(''7'', ''John''), (''8'', ''Ann'')] ! 1)) = 3"
proof -
  let ?fs = "permissive [data_csv \<mapsto> one_vote]"
  let ?vcs = "[(''7'', ''John''), (''8'', ''Ann'')]"
  have a: "open_read ?fs data_csv = Some one_vote" by (simp add: fs_eval)
  have b: "log_file one_vote" by (simp add: log_file_def one_vote_def)
  have c: "can_write ?fs data_csv" by (simp add: fs_eval)
  have n: "length (records one_vote) = 1" by (simp add: records_def one_vote_def)
  have s: "str_nat (Suc (Suc 0)) = ''2''" "str_nat (Suc (Suc (Suc 0))) = ''3''"
    by (simp_all add: str_nat.simps digit_chars_def)
  have k: "(1::nat) < length ?vcs" by simp
  from sequence_numbers_consecutive [OF a b c, of "''7''" "''John''" ?vcs]
  have 1: "files (log_vote ?fs data_csv ''7'' ''John'') data_csv
           = Some (one_vote @ [[''7'', ''John'', str_nat (length (records one_vote) + 1)]])"
    and 2: "files (log_all ?fs data_csv ?vcs) data_csv
           = Some (one_vote @ numbered (length (records one_vote)) ?vcs)"
    and 3: "\<forall>k<length ?vcs.
           digits_value (total_of (numbered (length (records one_vote)) ?vcs ! k))
               = length (records one_vote) + k + 1"
    by blast+
  from 1 have 1: "files (log_vote ?fs data_csv ''7'' ''John'') data_csv
       = Some [header, [''1'', ''Jane'', ''1''], [''7'', ''John'', ''2'']]"
    by (simp only: n) (simp add: s one_vote_def)
  from 2 have 2: "files (log_all ?fs data_csv ?vcs) data_csv
       = Some [header, [''1'', ''Jane'', ''1''], [''7'', ''John'', ''2''], [''8'', ''Ann'', ''3'']]"
    by (simp only: n) (simp add: s one_vote_def eval_nat_numeral)
  from 3 k have 3: "digits_value (total_of (numbered (length (records one_vote)) ?vcs ! 1))
       = length (records one_vote) + 1 + 1" by blast
  then have "digits_value (total_of (numbered (length (records one_vote)) ?vcs ! 1)) = 3"
    by (simp only: n)
  with 1 2 a b c k show ?thesis by blast
qed

section \<open>The results\<close>

lemma dict_rows_no_records: "records rows = [] \<Longrightarrow> dict_rows rows = []"
  by (cases rows) (simp_all add: dict_rows_def records_def)

lemma read_results_empty:
  "open_read fs fn = Some rows \<Longrightarrow> records rows = [] \<Longrightarrow>
   read_results fs fn = Inr [PyStr ''Jane'' \<mapsto> 0, PyStr ''John'' \<mapsto> 0, PyStr ''Total'' \<mapsto> 0]"
  by (simp add: read_results_def dict_rows_no_records initial_results_def)

lemma view_results_empty:
  "open_read fs fn = Some rows \<Longrightarrow> records rows = [] \<Longrightarrow>
   view_results fs fn = Inr (0, [PyStr ''Jane'' \<mapsto> 0, PyStr ''John'' \<mapsto> 0])"
proof -
  assume "open_read fs fn = Some rows" and "records rows = []"
  then have r: "read_results fs fn
      = Inr [PyStr ''Jane'' \<mapsto> 0, PyStr ''John'' \<mapsto> 0, PyStr ''Total'' \<mapsto> 0]"
    by (rule read_results_empty)
  have "[PyStr ''Jane'' \<mapsto> 0, PyStr ''John'' \<mapsto> 0, PyStr ''Total'' \<mapsto> 0](PyStr ''Total'' := None)
      = [PyStr ''Jane'' \<mapsto> 0, PyStr ''John'' \<mapsto> (0::int)]"
    by (rule ext) simp
  then show ?thesis by (simp add: view_results_def r)
qed

text \<open>
  C6 (amended). When the store can be read and holds no vote records,
  \<^verbatim>\<open>read_results\<close> returns the total 0 together with the two default candidates, each
  with the count 0, and no other entry: the mapping that \<^verbatim>\<open>view_results\<close> lists under
  the total is not empty, it is Jane 0 and John 0.
\<close>

theorem no_records_default_tally:
  assumes "open_read fs fn = Some rows" and "records rows = []"
  shows "read_results fs fn
           = Inr [PyStr ''Jane'' \<mapsto> 0, PyStr ''John'' \<mapsto> 0, PyStr ''Total'' \<mapsto> 0]
       \<and> view_results fs fn = Inr (0, [PyStr ''Jane'' \<mapsto> 0, PyStr ''John'' \<mapsto> 0])"
  using read_results_empty [OF assms] view_results_empty [OF assms] by simp

theorem no_records_default_tally_witness:
  "open_read (permissive [data_csv \<mapsto> [header]]) data_csv = Some [header]
   \<and> records [header] = []
   \<and> read_results (permissive [data_csv \<mapsto> [header]]) data_csv
       = Inr [PyStr ''Jane'' \<mapsto> 0, PyStr ''John'' \<mapsto> 0, PyStr ''Total'' \<mapsto> 0]
   \<and> view_results (permissive [data_csv \<mapsto> [header]]) data_csv
       = Inr (0, [PyStr ''Jane'' \<mapsto> 0, PyStr ''John'' \<mapsto> 0])"
proof -
  have a: "open_read (permissive [data_csv \<mapsto> [header]]) data_csv = Some [header]"
    by (simp add: fs_eval)
  have b: "records [header] = []" by (simp add: records_def)
  from no_records_default_tally [OF a b] a b show ?thesis by simp
qed

text \<open>
  C6 as stated fails: on the empty vote log the mapping that is returned is not empty,
  it holds Jane with the count 0.
\<close>

theorem empty_snapshot_counterexample:
  "records [header] = []
   \<and> view_results (permissive [data_csv \<mapsto> [header]]) data_csv
       = Inr (0, [PyStr ''Jane'' \<mapsto> 0, PyStr ''John'' \<mapsto> 0])
   \<and> [PyStr ''Jane'' \<mapsto> 0, PyStr ''John'' \<mapsto> (0::int)] (PyStr ''Jane'') = Some 0
   \<and> [PyStr ''Jane'' \<mapsto> 0, PyStr ''John'' \<mapsto> (0::int)] \<noteq> Map.empty"
proof -
  have a: "open_read (permissive [data_csv \<mapsto> [header]]) data_csv = Some [header]"
    by (simp add: fs_eval)
  have b: "records [header] = []" by (simp add: records_def)
  have "[PyStr ''Jane'' \<mapsto> 0, PyStr ''John'' \<mapsto> (0::int)] (PyStr ''Jane'') = Some 0" by simp
  moreover from this have "[PyStr ''Jane'' \<mapsto> 0, PyStr ''John'' \<mapsto> (0::int)] \<noteq> Map.empty"
    by (metis option.distinct(1))
  ultimately show ?thesis using view_results_empty [OF a b] b by simp
qed

lemma read_results_stored:
  assumes "log_store fs fn"
  shows "\<exists>res. read_results fs fn = Inr res
     \<and> res (PyStr ''Jane'') = Some (int (votes_for (stored_records fs fn) ''Jane''))
     \<and> res (PyStr ''John'') = Some (int (votes_for (stored_records fs fn) ''John''))
     \<and> res PyNone = None
     \<and> (\<forall>name. name \<noteq> ''Jane'' \<and> name \<noteq> ''John'' \<and> name \<noteq> ''Total'' \<longrightarrow>
          res (PyStr name) =
            (if 0 < votes_for (stored_records fs fn) name
             then Some (int (votes_for (stored_records fs fn) name)) else None))"
proof (cases "open_read fs fn")
  case None
  then have "read_results fs fn = Inr initial_results" by (rule read_results_unreadable)
  with None show ?thesis
    by (simp add: stored_records_def initial_results_def votes_for_def)
next
  case (Some rows)
  then have "files fs fn = Some rows" by (simp add: open_read_def split: if_splits)
  with assms have "log_file rows" by (simp add: log_store_def)
  with Some have "read_results fs fn = Inr (tally_of (records rows))" by (rule read_results_log)
  with Some show ?thesis by (simp add: stored_records_def tally_of_def)
qed

lemma reset_counts_fresh:
  "can_remove fs ''data.csv'' \<Longrightarrow> can_write fs ''data.csv'' \<Longrightarrow>
   files (reset_counts fs ''data.csv'') ''data.csv'' = Some [header]"
  by (simp add: reset_counts_def os_remove_def ensure_file_exists_def path_exists_def store_def
      files_def)

text \<open>
  C7. Start from a store that is absent or a vote log and run any operations, in any
  environment. Then \<^verbatim>\<open>read_results\<close> returns a mapping that holds both default
  candidates, each with the number of its votes among the records that can be read (0
  when it has none), and holds another name, apart from the key \<^verbatim>\<open>Total\<close>, exactly
  when that name has at least one vote, with the number of its votes. When the
  environment lets the store be removed, written and read, a reset after these
  operations leaves exactly Jane 0, John 0 and the total 0.
\<close>

theorem defaults_always_listed:
  assumes "log_store fs data_csv"
  shows "\<exists>res. read_results (run fs ops) data_csv = Inr res
     \<and> res (PyStr ''Jane'') = Some (int (votes_for (stored_records (run fs ops) data_csv) ''Jane''))
     \<and> res (PyStr ''John'') = Some (int (votes_for (stored_records (run fs ops) data_csv) ''John''))
     \<and> res PyNone = None
     \<and> (\<forall>name. name \<noteq> ''Jane'' \<and> name \<noteq> ''John'' \<and> name \<noteq> ''Total'' \<longrightarrow>
          res (PyStr name) =
            (if 0 < votes_for (stored_records (run fs ops) data_csv) name
             then Some (int (votes_for (stored_records (run fs ops) data_csv) name)) else None))
     \<and> (can_remove fs data_csv \<and> can_write fs data_csv \<and> can_read fs data_csv \<longrightarrow>
          read_results (run fs (ops @ [ResetVotes])) data_csv
            = Inr [PyStr ''Jane'' \<mapsto> 0, PyStr ''John'' \<mapsto> 0, PyStr ''Total'' \<mapsto> 0])"
proof -
  let ?s = "run fs ops"
  have "log_store ?s data_csv" using assms by (rule run_log_store)
  from read_results_stored [OF this] obtain res
    where 1: "read_results ?s data_csv = Inr res
     \<and> res (PyStr ''Jane'') = Some (int (votes_for (stored_records ?s data_csv) ''Jane''))
     \<and> res (PyStr ''John'') = Some (int (votes_for (stored_records ?s data_csv) ''John''))
     \<and> res PyNone = None
     \<and> (\<forall>name. name \<noteq> ''Jane'' \<and> name \<noteq> ''John'' \<and> name \<noteq> ''Total'' \<longrightarrow>
          res (PyStr name) =
            (if 0 < votes_for (stored_records ?s data_csv) name
             then Some (int (votes_for (stored_records ?s data_csv) name)) else None))"
    by blast
  have 2: "can_remove fs data_csv \<and> can_write fs data_csv \<and> can_read fs data_csv \<longrightarrow>
          read_results (run fs (ops @ [ResetVotes])) data_csv
            = Inr [PyStr ''Jane'' \<mapsto> 0, PyStr ''John'' \<mapsto> 0, PyStr ''Total'' \<mapsto> 0]"
  proof
    assume e: "can_remove fs data_csv \<and> can_write fs data_csv \<and> can_read fs data_csv"
    let ?t = "reset_counts ?s data_csv"
    have t: "run fs (ops @ [ResetVotes]) = ?t" by (simp add: run_def reset_votes_def)
    from e have "can_remove ?s ''data.csv''" and "can_write ?s ''data.csv''"
      by (simp_all add: run_env data_csv_def)
    then have "files ?t ''data.csv'' = Some [header]"
      unfolding data_csv_def by (rule reset_counts_fresh)
    moreover from e have "can_read ?t data_csv" by (simp add: reset_counts_env run_env)
    ultimately have o: "open_read ?t data_csv = Some [header]"
      by (simp add: open_read_def data_csv_def)
    have "records [header] = []" by (simp add: records_def)
    with o show "read_results (run fs (ops @ [ResetVotes])) data_csv
            = Inr [PyStr ''Jane'' \<mapsto> 0, PyStr ''John'' \<mapsto> 0, PyStr ''Total'' \<mapsto> 0]"
      unfolding t by (rule read_results_empty)
  qed
  from 1 2 show ?thesis by blast
qed

theorem defaults_always_listed_witness:
  "log_store (permissive [data_csv \<mapsto> [header]]) data_csv
   \<and> can_remove (permissive [data_csv \<mapsto> [header]]) data_csv
   \<and> can_write (permissive [data_csv \<mapsto> [header]]) data_csv
   \<and> can_read (permissive [data_csv \<mapsto> [header]]) data_csv
   \<and> ''Ann'' \<noteq> ''Jane'' \<and> ''Ann'' \<noteq> ''John'' \<and> ''Ann'' \<noteq> ''Total''
   \<and> (\<exists>res. read_results
          (run (permissive [data_csv \<mapsto> [header]])
             [CastVote ''1'' JaneRadio [], CastVote ''2'' OtherRadio ''Ann'']) data_csv = Inr res
        \<and> res (PyStr ''Jane'') = Some 1 \<and> res (PyStr ''John'') = Some 0
        \<and> res (PyStr ''Ann'') = Some 1)
   \<and> read_results
        (run (permissive [data_csv \<mapsto> [header]])
           ([CastVote ''1'' JaneRadio [], CastVote ''2'' OtherRadio ''Ann''] @ [ResetVotes]))
        data_csv
       = Inr [PyStr ''Jane'' \<mapsto> 0, PyStr ''John'' \<mapsto> 0, PyStr ''Total'' \<mapsto> 0]"
proof -
  let ?fs = "permissive [data_csv \<mapsto> [header]]"
  let ?ops = "[CastVote ''1'' JaneRadio [], CastVote ''2'' OtherRadio ''Ann'']"
  have a: "log_store ?fs data_csv" by (simp add: fs_eval handler_eval)
  have e: "can_remove ?fs data_csv" "can_write ?fs data_csv" "can_read ?fs data_csv"
    by (simp_all add: fs_eval)
  have n: "''Ann'' \<noteq> ''Jane''" "''Ann'' \<noteq> ''John''" "''Ann'' \<noteq> ''Total''" by simp_all
  have 1: "snd (on_button_click ?fs data_csv ''1'' JaneRadio [])
             = permissive [data_csv \<mapsto> [header, [''1'', ''Jane'', ''1'']]]"
    by (simp add: fs_eval handler_eval string_eval csv_eval)
  have 2: "snd (on_button_click (permissive [data_csv \<mapsto> [header, [''1'', ''Jane'', ''1'']]])
                  data_csv ''2'' OtherRadio ''Ann'')
             = permissive [data_csv \<mapsto> [header, [''1'', ''Jane'', ''1''], [''2'', ''Ann'', ''2'']]]"
    by (simp add: fs_eval handler_eval string_eval csv_eval)
  have r: "run ?fs ?ops
             = permissive [data_csv \<mapsto> [header, [''1'', ''Jane'', ''1''], [''2'', ''Ann'', ''2'']]]"
    by (simp add: run_def 1 2)
  have s: "stored_records (run ?fs ?ops) data_csv = [[''1'', ''Jane'', ''1''], [''2'', ''Ann'', ''2'']]"
    unfolding r by (simp add: stored_records_def fs_eval records_def)
  have v: "votes_for [[''1'', ''Jane'', ''1''], [''2'', ''Ann'', ''2'']] ''Jane'' = 1"
    "votes_for [[''1'', ''Jane'', ''1''], [''2'', ''Ann'', ''2'']] ''John'' = 0"
    "votes_for [[''1'', ''Jane'', ''1''], [''2'', ''Ann'', ''2'']] ''Ann'' = 1"
    by (simp_all add: votes_for_def vote_of_def)
  from defaults_always_listed [OF a, of ?ops] obtain res
    where big: "read_results (run ?fs ?ops) data_csv = Inr res
     \<and> res (PyStr ''Jane'') = Some (int (votes_for (stored_records (run ?fs ?ops) data_csv) ''Jane''))
     \<and> res (PyStr ''John'') = Some (int (votes_for (stored_records (run ?fs ?ops) data_csv) ''John''))
     \<and> res PyNone = None
     \<and> (\<forall>name. name \<noteq> ''Jane'' \<and> name \<noteq> ''John'' \<and> name \<noteq> ''Total'' \<longrightarrow>
          res (PyStr name) =
            (if 0 < votes_for (stored_records (run ?fs ?ops) data_csv) name
             then Some (int (votes_for (stored_records (run ?fs ?ops) data_csv) name)) else None))
     \<and> (can_remove ?fs data_csv \<and> can_write ?fs data_csv \<and> can_read ?fs data_csv \<longrightarrow>
          read_results (run ?fs (?ops @ [ResetVotes])) data_csv
            = Inr [PyStr ''Jane'' \<mapsto> 0, PyStr ''John'' \<mapsto> 0, PyStr ''Total'' \<mapsto> 0])"
    ..
  from big have 3: "read_results (run ?fs ?ops) data_csv = Inr res" by (rule conjunct1)
  from big have 4: "res (PyStr ''Jane'') = Some (int (votes_for (stored_records (run ?fs ?ops) data_csv) ''Jane''))"
    by (elim conjE)
  from big have 5: "res (PyStr ''John'') = Some (int (votes_for (stored_records (run ?fs ?ops) data_csv) ''John''))"
    by (elim conjE)
  from big have 6: "''Ann'' \<noteq> ''Jane'' \<and> ''Ann'' \<noteq> ''John'' \<and> ''Ann'' \<noteq> ''Total'' \<longrightarrow>
          res (PyStr ''Ann'') =
            (if 0 < votes_for (stored_records (run ?fs ?ops) data_csv) ''Ann''
             then Some (int (votes_for (stored_records (run ?fs ?ops) data_csv) ''Ann'')) else None)"
    by (elim conjE allE)
  from big have 7: "can_remove ?fs data_csv \<and> can_write ?fs data_csv \<and> can_read ?fs data_csv \<longrightarrow>
          read_results (run ?fs (?ops @ [ResetVotes])) data_csv
            = Inr [PyStr ''Jane'' \<mapsto> 0, PyStr ''John'' \<mapsto> 0, PyStr ''Total'' \<mapsto> 0]"
    by (elim conjE)
  from 4 have 4: "res (PyStr ''Jane'') = Some 1" by (simp only: s v) simp
  from 5 have 5: "res (PyStr ''John'') = Some 0" by (simp only: s v) simp
  from 6 n have "res (PyStr ''Ann'') =
            (if 0 < votes_for (stored_records (run ?fs ?ops) data_csv) ''Ann''
             then Some (int (votes_for (stored_records (run ?fs ?ops) data_csv) ''Ann'')) else None)"
    by (simp only: simp_thms)
  then have 6: "res (PyStr ''Ann'') = Some 1" by (simp only: s v) simp
  from 7 e have 7: "read_results (run ?fs (?ops @ [ResetVotes])) data_csv
            = Inr [PyStr ''Jane'' \<mapsto> 0, PyStr ''John'' \<mapsto> 0, PyStr ''Total'' \<mapsto> 0]"
    by (simp only: simp_thms)
  from 3 4 5 6 have x: "\<exists>res. read_results (run ?fs ?ops) data_csv = Inr res
        \<and> res (PyStr ''Jane'') = Some 1 \<and> res (PyStr ''John'') = Some 0
        \<and> res (PyStr ''Ann'') = Some 1" by (intro exI [of _ res] conjI)
  show ?thesis
    apply (intro conjI)
            apply (rule a)
           apply (rule e)+
        apply (rule n)+
     apply (rule x)
    apply (rule 7)
    done
qed

section \<open>Validation of the ballot\<close>

lemma isdigit_plain:
  "isdigit c \<Longrightarrow> \<not> isspace c \<and> c \<noteq> CHR ''_'' \<and> c \<noteq> CHR ''-'' \<and> c \<noteq> CHR ''+''"
  by (auto simp add: isdigit_def isspace_def digit_chars_def)

lemma scan_digits: "list_all isdigit s \<Longrightarrow> s \<noteq> [] \<or> prev \<noteq> CHR ''_'' \<Longrightarrow> scan prev s"
proof (induction s arbitrary: prev)
  case Nil
  then show ?case by simp
next
  case (Cons c s)
  then have c: "isdigit c" and s: "list_all isdigit s" by simp_all
  from c have "c \<noteq> CHR ''_''" by (simp add: isdigit_plain)
  with Cons.IH [OF s, of c] c show ?case by simp
qed

text \<open>
  A text of digits only is what \<^verbatim>\<open>int()\<close> accepts, up to the interpreter's limit on the
  number of digits.
\<close>

lemma digits_py_int:
  assumes "s \<noteq> []" and "list_all isdigit s" and "length s \<le> int_max_str_digits"
  shows "py_int s = Some (int (digits_value s))"
proof -
  from assms(1,2) have h: "isdigit (hd s)" and l: "isdigit (last s)"
    by (simp_all add: list_all_iff)
  then have "\<not> isspace (hd s)" and "\<not> isspace (last s)" by (simp_all add: isdigit_plain)
  then have "\<not> int_isspace (hd s) \<and> \<not> int_isspace (last s)"
    by (auto dest: int_isspace_isspace)
  then have st: "int_trim s = s" by (simp add: int_trim_fix)
  from h have sign: "hd s \<noteq> CHR ''-''" "hd s \<noteq> CHR ''+''" "hd s \<noteq> CHR ''_''"
    by (simp_all add: isdigit_plain)
  have "scan (CHR 0x00) s" using assms(2) by (rule scan_digits) (simp add: assms(1))
  with assms(1) sign have v: "valid_digits s" by (simp add: valid_digits_def)
  from assms(2) have "filter isdigit s = s" by (simp add: list_all_iff)
  with assms(3) have n: "length (filter isdigit s) \<le> int_max_str_digits" by simp
  show ?thesis by (simp add: py_int_def st sign v n Let_def)
qed

text \<open>
  C8 (amended). A ballot whose trimmed voter id \<^verbatim>\<open>int()\<close> does not accept is always
  refused with an \<open>InvalidInputError\<close> and changes nothing. A ballot with a write-in name
  that \<^verbatim>\<open>int()\<close> accepts never records a vote and never succeeds; it is refused with
  the \<open>InvalidInputError\<close> of the name when the checks that come first have passed: the
  voter id is numeric, the store can be read, has the \<^verbatim>\<open>VoterID\<close> column and holds no
  record of the voter.
\<close>

theorem invalid_input_rejected:
  "(py_int (strip i) = None \<longrightarrow>
      (\<exists>m. on_button_click fs fn i b l = (Inr m, fs) \<and> kind_of m = Some InvalidInputError))
   \<and> (py_int (strip l') \<noteq> None \<longrightarrow>
        snd (on_button_click fs fn i' OtherRadio l') = fs
        \<and> \<not> succeeded (fst (on_button_click fs fn i' OtherRadio l'))
        \<and> (py_int (strip i') \<noteq> None \<and> open_read fs fn = Some rows
             \<and> fieldnames rows = Some h \<and> ''VoterID'' \<in> set h \<and> \<not> has_voted rows (strip i')
            \<longrightarrow> on_button_click fs fn i' OtherRadio l' = (Inr NameIsNumber, fs)
                \<and> kind_of NameIsNumber = Some InvalidInputError))"
proof (intro conjI impI)
  assume "py_int (strip i) = None"
  then have "on_button_click fs fn i b l =
     (Inr (if strip i = [] then VoterIdRequired else VoterIdNotNumber), fs)"
    by (rule on_button_click_invalid)
  then show "\<exists>m. on_button_click fs fn i b l = (Inr m, fs) \<and> kind_of m = Some InvalidInputError"
    by simp
next
  assume n: "py_int (strip l') \<noteq> None"
  then have c: "cast_choice fs fn (strip i') OtherRadio l' = (Inr NameIsNumber, fs)"
    by (rule cast_choice_number)
  from on_button_click_cases [of fs fn i' OtherRadio l'] c
  show "snd (on_button_click fs fn i' OtherRadio l') = fs" by auto
  from on_button_click_cases [of fs fn i' OtherRadio l'] c
  show "\<not> succeeded (fst (on_button_click fs fn i' OtherRadio l'))"
    by (auto simp add: succeeded_def split: sum.splits message.splits)
  assume "py_int (strip i') \<noteq> None \<and> open_read fs fn = Some rows
             \<and> fieldnames rows = Some h \<and> ''VoterID'' \<in> set h \<and> \<not> has_voted rows (strip i')"
  then have "on_button_click fs fn i' OtherRadio l' = cast_choice fs fn (strip i') OtherRadio l'"
    by (simp add: on_button_click_new)
  with c show "on_button_click fs fn i' OtherRadio l' = (Inr NameIsNumber, fs)" by simp
  show "kind_of NameIsNumber = Some InvalidInputError" by simp
qed

theorem invalid_input_rejected_witness:
  "py_int (strip ''abc'') = None
   \<and> (\<exists>m. on_button_click (permissive [data_csv \<mapsto> [header]]) data_csv ''abc'' JaneRadio []
             = (Inr m, permissive [data_csv \<mapsto> [header]])
          \<and> kind_of m = Some InvalidInputError)
   \<and> py_int (strip '' 42 '') \<noteq> None
   \<and> py_int (strip ''7'') \<noteq> None
   \<and> open_read (permissive [data_csv \<mapsto> [header]]) data_csv = Some [header]
   \<and> fieldnames [header] = Some header
   \<and> ''VoterID'' \<in> set header
   \<and> \<not> has_voted [header] (strip ''7'')
   \<and> on_button_click (permissive [data_csv \<mapsto> [header]]) data_csv ''7'' OtherRadio '' 42 ''
       = (Inr NameIsNumber, permissive [data_csv \<mapsto> [header]])
   \<and> kind_of NameIsNumber = Some InvalidInputError"
proof -
  let ?fs = "permissive [data_csv \<mapsto> [header]]"
  note th = invalid_input_rejected
    [of "''abc''" ?fs data_csv JaneRadio "[]" "'' 42 ''" "''7''" "[header]" header]
  have h1: "py_int (strip ''abc'') = None" by (simp add: string_eval)
  have h2: "py_int (strip '' 42 '') \<noteq> None" by (simp add: string_eval)
  have h3: "py_int (strip ''7'') \<noteq> None" by (simp add: string_eval)
  have h4: "open_read ?fs data_csv = Some [header]" by (simp add: fs_eval)
  have h5: "fieldnames [header] = Some header" by (simp add: fieldnames_def)
  have h6: "''VoterID'' \<in> set header" by (simp add: header_def)
  have h7: "\<not> has_voted [header] (strip ''7'')" by (simp add: has_voted_def dict_rows_def)
  have c1: "\<exists>m. on_button_click ?fs data_csv ''abc'' JaneRadio [] = (Inr m, ?fs)
          \<and> kind_of m = Some InvalidInputError"
    using th [THEN conjunct1] h1 by (rule mp)
  have c2: "snd (on_button_click ?fs data_csv ''7'' OtherRadio '' 42 '') = ?fs
        \<and> \<not> succeeded (fst (on_button_click ?fs data_csv ''7'' OtherRadio '' 42 ''))
        \<and> (py_int (strip ''7'') \<noteq> None \<and> open_read ?fs data_csv = Some [header]
             \<and> fieldnames [header] = Some header \<and> ''VoterID'' \<in> set header
             \<and> \<not> has_voted [header] (strip ''7'')
            \<longrightarrow> on_button_click ?fs data_csv ''7'' OtherRadio '' 42 '' = (Inr NameIsNumber, ?fs)
                \<and> kind_of NameIsNumber = Some InvalidInputError)"
    using th [THEN conjunct2] h2 by (rule mp)
  have h: "py_int (strip ''7'') \<noteq> None \<and> open_read ?fs data_csv = Some [header]
             \<and> fieldnames [header] = Some header \<and> ''VoterID'' \<in> set header
             \<and> \<not> has_voted [header] (strip ''7'')"
    by (intro conjI h3 h4 h5 h6 h7)
  have c3: "on_button_click ?fs data_csv ''7'' OtherRadio '' 42 '' = (Inr NameIsNumber, ?fs)
                \<and> kind_of NameIsNumber = Some InvalidInputError"
    using c2 [THEN conjunct2, THEN conjunct2] h by (rule mp)
  show ?thesis
    by (intro conjI h1 c1 h2 h3 h4 h5 h6 h7 c3 [THEN conjunct1] c3 [THEN conjunct2])
qed

text \<open>
  C8 as stated fails: the write-in name \<open>42\<close> is purely numeric, but the voter \<open>1\<close> is
  in the store, and the ballot is refused with the already-voted error, a
  \<open>DuplicateVoterError\<close>, because the scan for the voter comes before the check of the
  name.
\<close>

theorem numeric_name_counterexample:
  "py_int (strip ''42'') = Some 42
   \<and> on_button_click (permissive [data_csv \<mapsto> one_vote]) data_csv ''1'' OtherRadio ''42''
       = (Inr AlreadyVoted, permissive [data_csv \<mapsto> one_vote])
   \<and> kind_of AlreadyVoted = Some DuplicateVoterError
   \<and> kind_of AlreadyVoted \<noteq> Some InvalidInputError"
proof -
  have 1: "py_int (strip ''42'') = Some 42" by (simp add: string_eval)
  have p: "py_int (strip ''1'') \<noteq> None" by (simp add: string_eval)
  have o: "open_read (permissive [data_csv \<mapsto> one_vote]) data_csv = Some one_vote"
    by (simp add: fs_eval)
  have s: "strip ''1'' = ''1''" by (simp add: string_eval)
  have v: "has_voted one_vote (strip ''1'')" unfolding s by (simp add: csv_eval)
  have 2: "on_button_click (permissive [data_csv \<mapsto> one_vote]) data_csv ''1'' OtherRadio ''42''
       = (Inr AlreadyVoted, permissive [data_csv \<mapsto> one_vote])"
    using p o v by (rule on_button_click_duplicate)
  from 1 2 show ?thesis by simp
qed

section \<open>Voter ids are compared as texts\<close>

text \<open>
  C9. The scan for the voter compares the trimmed text of the voter id with the first
  field of the records. On a vote log that can be read and written, two valid ballots
  whose voter ids have the same number but different trimmed texts, neither of them in
  the store, both succeed, one after the other, and leave two records with the two
  texts.
\<close>

theorem same_number_distinct_voters:
  assumes "files fs fn = Some rows" and "log_file rows"
    and "can_read fs fn" and "can_write fs fn"
    and "valid_ballot (a, ba, la)" and "valid_ballot (b, bb, lb)"
    and "py_int (strip a) = py_int (strip b)" and "strip a \<noteq> strip b"
    and "\<not> has_voted rows (strip a)" and "\<not> has_voted rows (strip b)"
  shows "\<exists>na nb.
      on_button_click fs fn a ba la
        = (Inr (Thanks na),
           store fs fn (rows @ [[strip a, na, str_nat (length (records rows) + 1)]]))
    \<and> on_button_click (snd (on_button_click fs fn a ba la)) fn b bb lb
        = (Inr (Thanks nb),
           store fs fn (rows @ [[strip a, na, str_nat (length (records rows) + 1)],
                                [strip b, nb, str_nat (length (records rows) + 2)]]))"
proof -
  let ?n = "length (records rows)"
  from cast_valid_step [OF assms(1-4) assms(5) assms(9)] obtain na
    where 1: "on_button_click fs fn a ba la =
           (Inr (Thanks na), store fs fn (rows @ [[strip a, na, str_nat (?n + 1)]]))"
    ..
  let ?rows = "rows @ [[strip a, na, str_nat (?n + 1)]]"
  let ?fs = "store fs fn ?rows"
  have f: "files ?fs fn = Some ?rows" by (simp add: store_simps)
  have l: "log_file ?rows" using assms(2) by (rule log_file_append)
  have r: "can_read ?fs fn" and w: "can_write ?fs fn"
    using assms(3,4) by (simp_all add: store_simps)
  have nv: "\<not> has_voted ?rows (strip b)"
    using assms(8,10) by (simp add: has_voted_snoc [OF assms(2)])
  from assms(2) have n: "length (records ?rows) = ?n + 1"
    by (simp add: records_append log_file_def)
  from cast_valid_step [OF f l r w assms(6) nv] obtain nb
    where "on_button_click ?fs fn b bb lb =
           (Inr (Thanks nb), store ?fs fn (?rows @ [[strip b, nb, str_nat (length (records ?rows) + 1)]]))"
    ..
  then have 2: "on_button_click ?fs fn b bb lb =
           (Inr (Thanks nb),
            store fs fn (rows @ [[strip a, na, str_nat (?n + 1)], [strip b, nb, str_nat (?n + 2)]]))"
    by (simp only: n) (simp add: store_def)
  from 1 2 show ?thesis by (intro exI [of _ na] exI [of _ nb]) simp
qed

theorem same_number_distinct_voters_witness:
  "files (permissive [data_csv \<mapsto> [header]]) data_csv = Some [header]
   \<and> log_file [header]
   \<and> can_read (permissive [data_csv \<mapsto> [header]]) data_csv
   \<and> can_write (permissive [data_csv \<mapsto> [header]]) data_csv
   \<and> valid_ballot (''1'', JaneRadio, []) \<and> valid_ballot (''01'', JohnRadio, [])
   \<and> py_int (strip ''1'') = py_int (strip ''01'') \<and> strip ''1'' \<noteq> strip ''01''
   \<and> \<not> has_voted [header] (strip ''1'') \<and> \<not> has_voted [header] (strip ''01'')
   \<and> (\<exists>na nb.
        on_button_click (snd (on_button_click (permissive [data_csv \<mapsto> [header]]) data_csv
                                ''1'' JaneRadio [])) data_csv ''01'' JohnRadio []
        = (Inr (Thanks nb),
           store (permissive [data_csv \<mapsto> [header]]) data_csv
             [header, [''1'', na, ''1''], [''01'', nb, ''2'']]))"
proof -
  let ?fs = "permissive [data_csv \<mapsto> [header]]"
  have a: "files ?fs data_csv = Some [header]" by (simp add: fs_eval)
  have b: "log_file [header]" by (rule log_file_header)
  have c: "can_read ?fs data_csv" by (simp add: fs_eval)
  have d: "can_write ?fs data_csv" by (simp add: fs_eval)
  have e: "valid_ballot (''1'', JaneRadio, [])"
    by (simp add: valid_ballot_simps) (simp add: string_eval)
  have f: "valid_ballot (''01'', JohnRadio, [])"
    by (simp add: valid_ballot_simps) (simp add: string_eval)
  have g: "py_int (strip ''1'') = py_int (strip ''01'')" by (simp add: string_eval)
  have h: "strip ''1'' \<noteq> strip ''01''" by (simp add: string_eval)
  have i: "\<not> has_voted [header] (strip ''1'')" by (simp add: has_voted_def dict_rows_def)
  have j: "\<not> has_voted [header] (strip ''01'')" by (simp add: has_voted_def dict_rows_def)
  have s: "strip ''1'' = ''1''" "strip ''01'' = ''01''" by (simp_all add: string_eval)
  have n: "str_nat (length (records [header]) + 1) = ''1''"
    "str_nat (length (records [header]) + 2) = ''2''"
    by (simp_all add: records_def str_nat.simps digit_chars_def)
  from same_number_distinct_voters [OF a b c d e f g h i j] obtain na nb
    where "on_button_click (snd (on_button_click ?fs data_csv ''1'' JaneRadio [])) data_csv
             ''01'' JohnRadio []
        = (Inr (Thanks nb),
           store ?fs data_csv
             ([header] @ [[strip ''1'', na, str_nat (length (records [header]) + 1)],
                          [strip ''01'', nb, str_nat (length (records [header]) + 2)]]))"
    by (elim exE conjE)
  then have "on_button_click (snd (on_button_click ?fs data_csv ''1'' JaneRadio [])) data_csv
             ''01'' JohnRadio []
        = (Inr (Thanks nb), store ?fs data_csv [header, [''1'', na, ''1''], [''01'', nb, ''2'']])"
    by (simp only: s n append.simps)
  then have x: "\<exists>na nb.
        on_button_click (snd (on_button_click ?fs data_csv ''1'' JaneRadio [])) data_csv
             ''01'' JohnRadio []
        = (Inr (Thanks nb), store ?fs data_csv [header, [''1'', na, ''1''], [''01'', nb, ''2'']])"
    by (intro exI)
  show ?thesis by (intro conjI a b c d e f g h i j x)
qed

section \<open>The reset\<close>







section \<open>Refused writes and removals\<close>

text \<open>
  What the handlers report when the operating system refuses the write or the removal.
  \<^verbatim>\<open>log_vote\<close> and \<^verbatim>\<open>reset_counts\<close> return nothing and only print the exception, so a
  valid ballot is thanked although no record is written, and the reset is reported as
  done although the records are still there.
\<close>

lemma refused_write_thanked:
  assumes "files fs fn = Some rows" and "log_file rows"
    and "can_read fs fn" and "\<not> can_write fs fn"
    and "valid_ballot (i, b, l)" and "\<not> has_voted rows (strip i)"
  shows "\<exists>name. on_button_click fs fn i b l = (Inr (Thanks name), fs)"
proof -
  from assms(1,3) have o: "open_read fs fn = Some rows" by (simp add: open_read_def)
  from assms(5) have p: "py_int (strip i) \<noteq> None" by (simp add: valid_ballot_def)
  have h: "''VoterID'' \<in> set header" by (simp add: header_def)
  have "on_button_click fs fn i b l = cast_choice fs fn (strip i) b l"
    using p o log_file_fieldnames [OF assms(2)] h assms(6) by (rule on_button_click_new)
  with cast_choice_valid [OF assms(5), of fs fn "strip i"] show ?thesis
    by (auto simp add: log_vote_refused [OF assms(4)])
qed

lemma refused_removal_reported_done:
  "files fs ''data.csv'' = Some rows \<Longrightarrow> \<not> can_remove fs ''data.csv'' \<Longrightarrow>
   reset_votes fs ''data.csv'' = (VotesReset, fs)"
  by (simp add: reset_votes_def reset_counts_def os_remove_def ensure_file_exists_def
      path_exists_def)

text \<open>
  C3, on the code: the store \<^verbatim>\<open>data.csv\<close> can be read but not written or removed.
  The ballot of voter \<open>1\<close> for Jane is thanked, which is no error of any kind, and the
  file system is as before, without the vote; the reset of a store with one record is
  reported as done, and the record is still there.
\<close>

theorem io_failure_reported_as_success:
  "on_button_click (read_only [data_csv \<mapsto> [header]]) data_csv ''1'' JaneRadio []
     = (Inr (Thanks ''Jane''), read_only [data_csv \<mapsto> [header]])
   \<and> kind_of (Thanks ''Jane'') = None
   \<and> reset_votes (read_only [data_csv \<mapsto> one_vote]) data_csv
       = (VotesReset, read_only [data_csv \<mapsto> one_vote])
   \<and> kind_of VotesReset = None
   \<and> stored_records (snd (reset_votes (read_only [data_csv \<mapsto> one_vote]) data_csv)) data_csv
       = [[''1'', ''Jane'', ''1'']]"
proof -
  have 1: "on_button_click (read_only [data_csv \<mapsto> [header]]) data_csv ''1'' JaneRadio []
     = (Inr (Thanks ''Jane''), read_only [data_csv \<mapsto> [header]])"
    by (simp add: fs_eval handler_eval string_eval csv_eval)
  have 2: "reset_votes (read_only [data_csv \<mapsto> one_vote]) data_csv
       = (VotesReset, read_only [data_csv \<mapsto> one_vote])"
    by (simp add: fs_eval handler_eval)
  have 3: "stored_records (read_only [data_csv \<mapsto> one_vote]) data_csv = [[''1'', ''Jane'', ''1'']]"
    by (simp add: stored_records_def fs_eval records_def one_vote_def)
  from 1 2 3 show ?thesis by simp
qed

end
